theory Spec2Isabelle
  imports Main "HOL-Library.Word" "HOL-Library.Monad_Syntax" "HOL-Library.List_Lexorder"
begin

section \<open>Constants and machine integers\<close>

text \<open>
  The B+tree of the repository works on byte slices. A byte is an \<open>8 word\<close>, a node
  buffer (\<open>type BNode []byte\<close>) a list of bytes. Values of type \<open>uint16\<close> are natural
  numbers below \<open>65536\<close>; every arithmetic expression the source evaluates in \<open>uint16\<close> is
  wrapped with \<open>u16\<close>. Page numbers (\<open>uint64\<close>) are natural numbers, stored little endian
  in eight bytes. A panic of the source (a failed \<open>assert\<close>, a slice or index out of
  range, \<open>panic("bad node!")\<close>) is the value \<open>None\<close>.
\<close>

type_synonym byte = "8 word"
type_synonym BNode = "byte list"

definition HEADER :: nat where
  "HEADER = 4"

definition BTREE_PAGE_SIZE :: nat where
  "BTREE_PAGE_SIZE = 4096"

definition BTREE_MAX_KEY_SIZE :: nat where
  "BTREE_MAX_KEY_SIZE = 1000"

definition BTREE_MAX_VAL_SIZE :: nat where
  "BTREE_MAX_VAL_SIZE = 3000"

definition BNODE_NODE :: nat where
  "BNODE_NODE = 1"

definition BNODE_LEAF :: nat where
  "BNODE_LEAF = 2"

definition u16 :: "nat \<Rightarrow> nat" where
  "u16 x = x mod 65536"

text \<open>Subtraction of two \<open>uint16\<close> values, wrapping around below zero.\<close>

definition u16_sub :: "nat \<Rightarrow> nat \<Rightarrow> nat" where
  "u16_sub a b = (a mod 65536 + 65536 - b mod 65536) mod 65536"

definition assert :: "bool \<Rightarrow> unit option" where
  "assert c = (if c then Some () else None)"

text \<open>\<open>make([]byte, n)\<close>: a fresh buffer of \<open>n\<close> zero bytes.\<close>

definition make_bytes :: "nat \<Rightarrow> BNode" where
  "make_bytes n = replicate n 0"

section \<open>Slices, copies and little-endian fields\<close>

text \<open>
  \<open>b[lo:hi]\<close> and \<open>b[lo:]\<close>. Go bounds a slice expression by the capacity of \<open>b\<close>; here
  the bound is its length. The two agree on a buffer fresh from \<open>make\<close>. A page that
  \<open>nodeSplit3\<close> trims with \<open>old[:BTREE_PAGE_SIZE]\<close> keeps the capacity of its scratch
  buffer of two pages, so a slice of such a page that ends beyond its length is \<open>None\<close>
  here and may succeed in the source. The model is the stricter of the two: a run that
  returns here stays within the lengths of its buffers and returns the same in the source,
  while \<open>None\<close> here does not always mean a panic there.
\<close>

definition slice :: "BNode \<Rightarrow> nat \<Rightarrow> nat \<Rightarrow> BNode option" where
  "slice b lo hi = (if lo \<le> hi \<and> hi \<le> length b then Some (take (hi - lo) (drop lo b)) else None)"

definition slice_from :: "BNode \<Rightarrow> nat \<Rightarrow> BNode option" where
  "slice_from b lo = (if lo \<le> length b then Some (drop lo b) else None)"

text \<open>
  \<open>copy(b[pos:], src)\<close>: overwrites \<open>b\<close> from \<open>pos\<close> on with as many bytes of \<open>src\<close>
  as fit; only the slicing can panic.
\<close>

definition blit :: "BNode \<Rightarrow> nat \<Rightarrow> byte list \<Rightarrow> BNode" where
  "blit b pos src = take pos b @ take (length b - pos) src @ drop (pos + length src) b"

definition copy_at :: "BNode \<Rightarrow> nat \<Rightarrow> byte list \<Rightarrow> BNode option" where
  "copy_at b pos src = (if pos \<le> length b then Some (blit b pos src) else None)"

text \<open>\<open>binary.LittleEndian.Uint16(b[pos:])\<close> and \<open>binary.LittleEndian.PutUint16(b[pos:], v)\<close>.\<close>

definition get16 :: "BNode \<Rightarrow> nat \<Rightarrow> nat" where
  "get16 b pos = unat (b ! pos) + 256 * unat (b ! (pos + 1))"

definition put16 :: "BNode \<Rightarrow> nat \<Rightarrow> nat \<Rightarrow> BNode" where
  "put16 b pos v = b[pos := of_nat (v mod 256), pos + 1 := of_nat (v div 256 mod 256)]"

definition Uint16 :: "BNode \<Rightarrow> nat \<Rightarrow> nat option" where
  "Uint16 b pos = (if pos + 2 \<le> length b then Some (get16 b pos) else None)"

definition PutUint16 :: "BNode \<Rightarrow> nat \<Rightarrow> nat \<Rightarrow> BNode option" where
  "PutUint16 b pos v = (if pos + 2 \<le> length b then Some (put16 b pos v) else None)"

text \<open>\<open>binary.LittleEndian.Uint64(b[pos:pos+8])\<close> and \<open>PutUint64(b[pos:pos+8], v)\<close>.\<close>

definition get64 :: "BNode \<Rightarrow> nat \<Rightarrow> nat" where
  "get64 b pos =
     unat (b ! pos) + unat (b ! (pos + 1)) * 256 + unat (b ! (pos + 2)) * 65536
     + unat (b ! (pos + 3)) * 16777216 + unat (b ! (pos + 4)) * 4294967296
     + unat (b ! (pos + 5)) * 1099511627776 + unat (b ! (pos + 6)) * 281474976710656
     + unat (b ! (pos + 7)) * 72057594037927936"

definition put64 :: "BNode \<Rightarrow> nat \<Rightarrow> nat \<Rightarrow> BNode" where
  "put64 b pos v =
     b[pos := of_nat (v mod 256),
       pos + 1 := of_nat (v div 256 mod 256),
       pos + 2 := of_nat (v div 65536 mod 256),
       pos + 3 := of_nat (v div 16777216 mod 256),
       pos + 4 := of_nat (v div 4294967296 mod 256),
       pos + 5 := of_nat (v div 1099511627776 mod 256),
       pos + 6 := of_nat (v div 281474976710656 mod 256),
       pos + 7 := of_nat (v div 72057594037927936 mod 256)]"

definition Uint64 :: "BNode \<Rightarrow> nat \<Rightarrow> nat option" where
  "Uint64 b pos =
     (if pos \<le> u16 (pos + 8) \<and> u16 (pos + 8) \<le> length b then Some (get64 b pos) else None)"

definition PutUint64 :: "BNode \<Rightarrow> nat \<Rightarrow> nat \<Rightarrow> BNode option" where
  "PutUint64 b pos v =
     (if pos \<le> u16 (pos + 8) \<and> u16 (pos + 8) \<le> length b then Some (put64 b pos v) else None)"

text \<open>\<open>bytes.Compare\<close>: lexicographic order on unsigned bytes, as \<open>-1\<close>, \<open>0\<close> or \<open>1\<close>.\<close>

fun bytes_Compare :: "byte list \<Rightarrow> byte list \<Rightarrow> int" where
  "bytes_Compare [] [] = 0"
| "bytes_Compare [] (y # ys) = - 1"
| "bytes_Compare (x # xs) [] = 1"
| "bytes_Compare (x # xs) (y # ys) =
     (if x < y then - 1 else if y < x then 1 else bytes_Compare xs ys)"

text \<open>A \<open>for\<close> loop over the indices \<open>is\<close> whose body may panic.\<close>

fun for_loop :: "nat list \<Rightarrow> (nat \<Rightarrow> BNode \<Rightarrow> BNode option) \<Rightarrow> BNode \<Rightarrow> BNode option" where
  "for_loop [] body b = Some b"
| "for_loop (i # is) body b = Option.bind (body i b) (for_loop is body)"

section \<open>Page codec\<close>

definition btype :: "BNode \<Rightarrow> nat option" where
  "btype node = Uint16 node 0"

definition nkeys :: "BNode \<Rightarrow> nat option" where
  "nkeys node = (if 4 \<le> length node then Some (get16 node 2) else None)"

definition setHeader :: "BNode \<Rightarrow> nat \<Rightarrow> nat \<Rightarrow> BNode option" where
  "setHeader node bt n =
     (if 4 \<le> length node then Some (put16 (put16 node 0 bt) 2 n) else None)"

definition getPtr :: "BNode \<Rightarrow> nat \<Rightarrow> nat option" where
  "getPtr node idx = do {
     n \<leftarrow> nkeys node;
     _ \<leftarrow> assert (idx < n);
     Uint64 node (u16 (HEADER + 8 * idx))
   }"

definition setPtr :: "BNode \<Rightarrow> nat \<Rightarrow> nat \<Rightarrow> BNode option" where
  "setPtr node idx val = do {
     n \<leftarrow> nkeys node;
     _ \<leftarrow> assert (idx < n);
     PutUint64 node (u16 (HEADER + 8 * idx)) val
   }"

definition offsetPos :: "BNode \<Rightarrow> nat \<Rightarrow> nat option" where
  "offsetPos node idx = do {
     n \<leftarrow> nkeys node;
     _ \<leftarrow> assert (1 \<le> idx \<and> idx \<le> n);
     Some (u16 (HEADER + 8 * n + 2 * (idx - 1)))
   }"

definition getOffset :: "BNode \<Rightarrow> nat \<Rightarrow> nat option" where
  "getOffset node idx =
     (if idx = 0 then Some 0
      else do { pos \<leftarrow> offsetPos node idx; Uint16 node pos })"

definition setOffset :: "BNode \<Rightarrow> nat \<Rightarrow> nat \<Rightarrow> BNode option" where
  "setOffset node idx offset = do {
     n \<leftarrow> nkeys node;
     _ \<leftarrow> assert (1 \<le> idx \<and> idx \<le> n);
     pos \<leftarrow> offsetPos node idx;
     PutUint16 node pos offset
   }"

definition kvPos :: "BNode \<Rightarrow> nat \<Rightarrow> nat option" where
  "kvPos node idx = do {
     n \<leftarrow> nkeys node;
     _ \<leftarrow> assert (idx \<le> n);
     off \<leftarrow> getOffset node idx;
     Some (u16 (HEADER + 8 * n + 2 * n + off))
   }"

definition getKey :: "BNode \<Rightarrow> nat \<Rightarrow> byte list option" where
  "getKey node idx = do {
     n \<leftarrow> nkeys node;
     _ \<leftarrow> assert (idx < n);
     pos \<leftarrow> kvPos node idx;
     klen \<leftarrow> Uint16 node pos;
     rest \<leftarrow> slice_from node (u16 (pos + 4));
     slice rest 0 klen
   }"

definition getVal :: "BNode \<Rightarrow> nat \<Rightarrow> byte list option" where
  "getVal node idx = do {
     n \<leftarrow> nkeys node;
     _ \<leftarrow> assert (idx < n);
     pos \<leftarrow> kvPos node idx;
     klen \<leftarrow> Uint16 node pos;
     vlen \<leftarrow> Uint16 node (u16 (pos + 2));
     let valStart = u16 (pos + 4 + klen);
     slice node valStart (u16 (valStart + vlen))
   }"

definition nbytes :: "BNode \<Rightarrow> nat option" where
  "nbytes node = do { n \<leftarrow> nkeys node; kvPos node n }"

definition setKey :: "BNode \<Rightarrow> nat \<Rightarrow> byte list \<Rightarrow> BNode option" where
  "setKey node idx key = do {
     pos \<leftarrow> kvPos node idx;
     let klen = u16 (length key);
     node1 \<leftarrow> PutUint16 node pos klen;
     copy_at node1 (u16 (pos + 4)) key
   }"

section \<open>Node algorithms\<close>

text \<open>
  The scan of \<open>nodeLookUpLE\<close> over the indices \<open>1, 2, ...\<close> below \<open>nkeys\<close>: it records
  the index when the key there is at most \<open>key\<close> and stops at the first key that is
  at least \<open>key\<close>.
\<close>

fun lookup_scan :: "BNode \<Rightarrow> byte list \<Rightarrow> nat list \<Rightarrow> nat \<Rightarrow> nat option" where
  "lookup_scan node key [] found = Some found"
| "lookup_scan node key (i # is) found = do {
     k \<leftarrow> getKey node i;
     let cmp = bytes_Compare k key;
     let found' = (if cmp \<le> 0 then i else found);
     if cmp \<ge> 0 then Some found' else lookup_scan node key is found'
   }"

definition nodeLookUpLE :: "BNode \<Rightarrow> byte list \<Rightarrow> nat option" where
  "nodeLookUpLE node key = do {
     n \<leftarrow> nkeys node;
     lookup_scan node key [1..<n] 0
   }"

definition nodeAppendKV :: "BNode \<Rightarrow> nat \<Rightarrow> nat \<Rightarrow> byte list \<Rightarrow> byte list \<Rightarrow> BNode option" where
  "nodeAppendKV new idx ptr key val = do {
     new1 \<leftarrow> setPtr new idx ptr;
     pos \<leftarrow> kvPos new1 idx;
     new2 \<leftarrow> PutUint16 new1 (u16 (pos + 0)) (u16 (length key));
     new3 \<leftarrow> PutUint16 new2 (u16 (pos + 2)) (u16 (length val));
     new4 \<leftarrow> copy_at new3 (u16 (pos + 4)) key;
     new5 \<leftarrow> copy_at new4 (u16 (pos + 4 + u16 (length key))) val;
     off \<leftarrow> getOffset new5 idx;
     setOffset new5 (u16 (idx + 1)) (u16 (off + 4 + u16 (length key + length val)))
   }"

text \<open>
  \<open>nodeAppendRange\<close>. The second loop of the source runs \<open>for i := uint16(1); i <= n; i++\<close>;
  with \<open>n = 65535\<close> the counter wraps to \<open>0\<close> and the loop goes on until \<open>setOffset\<close> is
  called with index \<open>0\<close>, where its assertion fails, so that case ends in a panic.
\<close>

definition nodeAppendRange :: "BNode \<Rightarrow> BNode \<Rightarrow> nat \<Rightarrow> nat \<Rightarrow> nat \<Rightarrow> BNode option" where
  "nodeAppendRange new old dstNew srcOld n = do {
     on \<leftarrow> nkeys old;
     _ \<leftarrow> assert (u16 (srcOld + n) \<le> on);
     nn \<leftarrow> nkeys new;
     _ \<leftarrow> assert (u16 (dstNew + n) \<le> nn);
     if n = 0 then Some new
     else do {
       new1 \<leftarrow> for_loop [0..<n]
         (\<lambda>i b. do { p \<leftarrow> getPtr old (u16 (srcOld + i)); setPtr b (u16 (dstNew + i)) p }) new;
       dstBegin \<leftarrow> getOffset new1 dstNew;
       srcBegin \<leftarrow> getOffset old srcOld;
       new2 \<leftarrow> for_loop [1..<n + 1]
         (\<lambda>i b. do {
            off \<leftarrow> getOffset old (u16 (srcOld + i));
            setOffset b (u16 (dstNew + i)) (u16 (dstBegin + u16_sub off srcBegin))
          }) new1;
       _ \<leftarrow> assert (n < 65535);
       kv_begin \<leftarrow> kvPos old srcOld;
       kv_end \<leftarrow> kvPos old (u16 (srcOld + n));
       pos \<leftarrow> kvPos new2 dstNew;
       kvs \<leftarrow> slice old kv_begin kv_end;
       copy_at new2 pos kvs
     }
   }"

definition leafInsert :: "BNode \<Rightarrow> BNode \<Rightarrow> nat \<Rightarrow> byte list \<Rightarrow> byte list \<Rightarrow> BNode option" where
  "leafInsert new old idx key val = do {
     on \<leftarrow> nkeys old;
     new1 \<leftarrow> setHeader new BNODE_LEAF (u16 (on + 1));
     new2 \<leftarrow> nodeAppendRange new1 old 0 0 idx;
     nodeAppendRange new2 old (u16 (idx + 1)) idx (u16_sub on idx)
   }"

definition leafDelete :: "BNode \<Rightarrow> BNode \<Rightarrow> nat \<Rightarrow> BNode option" where
  "leafDelete new old idx = do {
     on \<leftarrow> nkeys old;
     new1 \<leftarrow> setHeader new BNODE_LEAF (u16_sub on 1);
     new2 \<leftarrow> nodeAppendRange new1 old 0 0 idx;
     nodeAppendRange new2 old idx (u16 (idx + 1)) (u16_sub on (u16 (idx + 1)))
   }"

definition nodeMerge :: "BNode \<Rightarrow> BNode \<Rightarrow> BNode \<Rightarrow> BNode option" where
  "nodeMerge new left right = do {
     lt \<leftarrow> btype left;
     ln \<leftarrow> nkeys left;
     rn \<leftarrow> nkeys right;
     new1 \<leftarrow> setHeader new lt (u16 (ln + rn));
     new2 \<leftarrow> nodeAppendRange new1 left 0 0 ln;
     nodeAppendRange new2 right ln 0 rn
   }"

definition nodeReplace2Kid :: "BNode \<Rightarrow> BNode \<Rightarrow> nat \<Rightarrow> nat \<Rightarrow> byte list \<Rightarrow> BNode option" where
  "nodeReplace2Kid new old idx ptr key = do {
     on \<leftarrow> nkeys old;
     new1 \<leftarrow> setHeader new BNODE_NODE (u16_sub on 1);
     new2 \<leftarrow> nodeAppendRange new1 old 0 0 idx;
     new3 \<leftarrow> nodeAppendRange new2 old idx (u16 (idx + 2)) (u16_sub on (u16 (idx + 2)));
     new4 \<leftarrow> setPtr new3 idx ptr;
     setKey new4 idx key
   }"

text \<open>\<open>nodeSplit2\<close> has an empty body in the source: it leaves both buffers as they are.\<close>

definition nodeSplit2 :: "BNode \<Rightarrow> BNode \<Rightarrow> BNode \<Rightarrow> (BNode \<times> BNode) option" where
  "nodeSplit2 left right old = Some (left, right)"

text \<open>
  \<open>nodeSplit3\<close> returns a count and an array of three nodes; the entries the source leaves
  out of the array literal are nil slices, here \<open>[]\<close>. \<open>old[:BTREE_PAGE_SIZE]\<close> panics on a
  buffer shorter than a page.
\<close>

definition nodeSplit3 :: "BNode \<Rightarrow> (nat \<times> BNode list) option" where
  "nodeSplit3 old = do {
     sz \<leftarrow> nbytes old;
     if sz \<le> BTREE_PAGE_SIZE then do {
       old' \<leftarrow> slice old 0 BTREE_PAGE_SIZE;
       Some (1, [old', [], []])
     } else do {
       let left = make_bytes (2 * BTREE_PAGE_SIZE);
       let right = make_bytes BTREE_PAGE_SIZE;
       lsz \<leftarrow> nbytes left;
       if lsz \<le> BTREE_PAGE_SIZE then do {
         left' \<leftarrow> slice left 0 BTREE_PAGE_SIZE;
         Some (2, [left', right, []])
       } else do {
         let leftLeft = make_bytes BTREE_PAGE_SIZE;
         let middle = make_bytes BTREE_PAGE_SIZE;
         (leftLeft', middle') \<leftarrow> nodeSplit2 leftLeft middle left;
         llsz \<leftarrow> nbytes leftLeft';
         _ \<leftarrow> assert (llsz \<le> BTREE_PAGE_SIZE);
         Some (3, [leftLeft', middle', right])
       }
     }
   }"

section \<open>The tree and its page manager\<close>

text \<open>
  \<open>BTree\<close> holds the root page number and three callbacks \<open>get\<close>, \<open>new\<close> and \<open>del\<close>. The
  callbacks are those of the in-memory page manager of the source (\<open>newC\<close>): a map from
  page numbers to buffers, with the assertions of the source, and the state counts the
  calls of \<open>new\<close> and \<open>del\<close>. The source takes the address of the buffer as the page
  number, and \<open>new\<close> asserts that no page is registered under it. Here \<open>new\<close> hands out
  the numbers \<open>next_ptr\<close>, \<open>next_ptr + 1\<close>, ..., which are always free. The two differ
  where the source calls \<open>new\<close> on a buffer that is registered already: \<open>Delete\<close>, when it
  shortens an internal root with one key left, passes \<open>new\<close> the buffer that \<open>get\<close> has
  just returned, and the source panics there while this model returns \<open>true\<close>. That path
  is taken only after \<open>treeDelete\<close> has removed a key; no property below rests on it.
\<close>

record BTree =
  root :: nat
  pages :: "nat \<rightharpoonup> BNode"
  next_ptr :: nat
  new_calls :: nat
  del_calls :: nat

definition tree_get :: "BTree \<Rightarrow> nat \<Rightarrow> BNode option" where
  "tree_get tree ptr = pages tree ptr"

definition tree_new :: "BTree \<Rightarrow> BNode \<Rightarrow> (nat \<times> BTree) option" where
  "tree_new tree node = do {
     sz \<leftarrow> nbytes node;
     _ \<leftarrow> assert (sz \<le> BTREE_PAGE_SIZE);
     let ptr = next_ptr tree;
     _ \<leftarrow> assert (pages tree ptr = None);
     Some (ptr, tree\<lparr>pages := (pages tree)(ptr \<mapsto> node),
                     next_ptr := ptr + 1,
                     new_calls := new_calls tree + 1\<rparr>)
   }"

definition tree_del :: "BTree \<Rightarrow> nat \<Rightarrow> BTree option" where
  "tree_del tree ptr = do {
     _ \<leftarrow> assert (pages tree ptr \<noteq> None);
     Some (tree\<lparr>pages := (pages tree)(ptr := None), del_calls := del_calls tree + 1\<rparr>)
   }"

text \<open>
  The loop \<open>for i, node := range kids\<close> of \<open>nodeReplaceKidN\<close> and of \<open>Insert\<close>: each kid is
  allocated and linked at slot \<open>idx + i\<close> under its first key.
\<close>

fun append_kids :: "BTree \<Rightarrow> BNode \<Rightarrow> nat \<Rightarrow> nat \<Rightarrow> BNode list \<Rightarrow> (BNode \<times> BTree) option" where
  "append_kids tree new idx i [] = Some (new, tree)"
| "append_kids tree new idx i (node # kids) = do {
     (ptr, tree1) \<leftarrow> tree_new tree node;
     key \<leftarrow> getKey node 0;
     new1 \<leftarrow> nodeAppendKV new (u16 (idx + u16 i)) ptr key [];
     append_kids tree1 new1 idx (i + 1) kids
   }"

definition nodeReplaceKidN :: "BTree \<Rightarrow> BNode \<Rightarrow> BNode \<Rightarrow> nat \<Rightarrow> BNode list \<Rightarrow> (BNode \<times> BTree) option" where
  "nodeReplaceKidN tree new old idx kids = do {
     let inc = u16 (length kids);
     on \<leftarrow> nkeys old;
     new1 \<leftarrow> setHeader new BNODE_NODE (u16_sub (u16 (on + inc)) 1);
     new2 \<leftarrow> nodeAppendRange new1 old 0 0 idx;
     (new3, tree1) \<leftarrow> append_kids tree new2 idx 0 kids;
     new4 \<leftarrow> nodeAppendRange new3 old (u16 (idx + inc)) (u16 (idx + 1)) (u16_sub on (u16 (idx + 1)));
     Some (new4, tree1)
   }"

text \<open>
  The recursion of \<open>treeInsert\<close> and \<open>nodeInsert\<close> follows page numbers, so it carries a
  budget: the number of nodes it may visit on its way down. An exhausted budget is \<open>None\<close>.
\<close>

fun treeInsert :: "nat \<Rightarrow> BTree \<Rightarrow> BNode \<Rightarrow> byte list \<Rightarrow> byte list \<Rightarrow> (BNode \<times> BTree) option"
  and nodeInsert :: "nat \<Rightarrow> BTree \<Rightarrow> BNode \<Rightarrow> BNode \<Rightarrow> nat \<Rightarrow> byte list \<Rightarrow> byte list \<Rightarrow> (BNode \<times> BTree) option"
where
  "treeInsert 0 tree node key val = None"
| "treeInsert (Suc fuel) tree node key val = do {
     let new = make_bytes (2 * BTREE_PAGE_SIZE);
     idx \<leftarrow> nodeLookUpLE node key;
     t \<leftarrow> btype node;
     if t = BNODE_LEAF then do {
       k \<leftarrow> getKey node idx;
       if key = k then Some (new, tree)
       else do {
         new1 \<leftarrow> leafInsert new node (u16 (idx + 1)) key val;
         Some (new1, tree)
       }
     }
     else if t = BNODE_NODE then nodeInsert fuel tree new node idx key val
     else None
   }"
| "nodeInsert fuel tree new node idx key val = do {
     kptr \<leftarrow> getPtr node idx;
     kid \<leftarrow> tree_get tree kptr;
     (knode, tree1) \<leftarrow> treeInsert fuel tree kid key val;
     (nsplit, split) \<leftarrow> nodeSplit3 knode;
     tree2 \<leftarrow> tree_del tree1 kptr;
     nodeReplaceKidN tree2 new node idx (take nsplit split)
   }"

definition Insert :: "nat \<Rightarrow> BTree \<Rightarrow> byte list \<Rightarrow> byte list \<Rightarrow> BTree option" where
  "Insert fuel tree key val =
     (if root tree = 0 then do {
        let root0 = make_bytes BTREE_PAGE_SIZE;
        root1 \<leftarrow> setHeader root0 BNODE_LEAF 2;
        root2 \<leftarrow> nodeAppendKV root1 0 0 [] [];
        root3 \<leftarrow> nodeAppendKV root2 1 0 key val;
        (ptr, tree1) \<leftarrow> tree_new tree root3;
        Some (tree1\<lparr>root := ptr\<rparr>)
      } else do {
        rnode \<leftarrow> tree_get tree (root tree);
        (node, tree1) \<leftarrow> treeInsert fuel tree rnode key val;
        (nsplit, split) \<leftarrow> nodeSplit3 node;
        tree2 \<leftarrow> tree_del tree1 (root tree1);
        if nsplit > 1 then do {
          let root0 = make_bytes BTREE_PAGE_SIZE;
          root1 \<leftarrow> setHeader root0 BNODE_NODE nsplit;
          (root2, tree3) \<leftarrow> append_kids tree2 root1 0 0 (take nsplit split);
          (ptr, tree4) \<leftarrow> tree_new tree3 root2;
          Some (tree4\<lparr>root := ptr\<rparr>)
        } else do {
          (ptr, tree3) \<leftarrow> tree_new tree2 (split ! 0);
          Some (tree3\<lparr>root := ptr\<rparr>)
        }
      })"

section \<open>Deletion\<close>

definition shouldMerge :: "BTree \<Rightarrow> BNode \<Rightarrow> nat \<Rightarrow> BNode \<Rightarrow> (int \<times> BNode) option" where
  "shouldMerge tree node idx updated = do {
     usz \<leftarrow> nbytes updated;
     if usz > BTREE_PAGE_SIZE div 4 then Some (0, [])
     else do {
       left \<leftarrow> (if idx > 0 then do {
           p \<leftarrow> getPtr node (u16_sub idx 1);
           sibling \<leftarrow> tree_get tree p;
           ssz \<leftarrow> nbytes sibling;
           usz' \<leftarrow> nbytes updated;
           let merged = u16_sub (u16 (ssz + usz')) HEADER;
           Some (if merged \<le> BTREE_PAGE_SIZE then Some sibling else None)
         } else Some None);
       case left of
         Some sibling \<Rightarrow> Some (- 1, sibling)
       | None \<Rightarrow> do {
           n \<leftarrow> nkeys node;
           right \<leftarrow> (if u16 (idx + 1) < n then do {
               p \<leftarrow> getPtr node (u16 (idx + 1));
               sibling \<leftarrow> tree_get tree p;
               ssz \<leftarrow> nbytes sibling;
               usz' \<leftarrow> nbytes updated;
               let merged = u16_sub (u16 (ssz + usz')) HEADER;
               Some (if merged \<le> BTREE_PAGE_SIZE then Some sibling else None)
             } else Some None);
           case right of
             Some sibling \<Rightarrow> Some (1, sibling)
           | None \<Rightarrow> Some (0, [])
         }
     }
   }"

text \<open>
  \<open>treeDelete\<close> returns the empty buffer \<open>BNode{}\<close> when the key is not there. Its
  recursion through \<open>nodeDelete\<close> carries the same budget as \<open>treeInsert\<close>.
\<close>

fun treeDelete :: "nat \<Rightarrow> BTree \<Rightarrow> BNode \<Rightarrow> byte list \<Rightarrow> (BNode \<times> BTree) option"
  and nodeDelete :: "nat \<Rightarrow> BTree \<Rightarrow> BNode \<Rightarrow> nat \<Rightarrow> byte list \<Rightarrow> (BNode \<times> BTree) option"
where
  "treeDelete 0 tree node key = None"
| "treeDelete (Suc fuel) tree node key = do {
     let new = make_bytes (2 * BTREE_PAGE_SIZE);
     idx \<leftarrow> nodeLookUpLE node key;
     t \<leftarrow> btype node;
     if t = BNODE_LEAF then do {
       k \<leftarrow> getKey node idx;
       if key \<noteq> k then Some ([], tree)
       else do {
         new1 \<leftarrow> leafDelete new node idx;
         Some (new1, tree)
       }
     }
     else if t = BNODE_NODE then nodeDelete fuel tree node idx key
     else None
   }"
| "nodeDelete fuel tree node idx key = do {
     kptr \<leftarrow> getPtr node idx;
     kid \<leftarrow> tree_get tree kptr;
     (updated, tree1) \<leftarrow> treeDelete fuel tree kid key;
     if length updated = 0 then Some ([], tree1)
     else do {
       tree2 \<leftarrow> tree_del tree1 kptr;
       let new = make_bytes BTREE_PAGE_SIZE;
       (mergeDir, sibling) \<leftarrow> shouldMerge tree2 node idx updated;
       if mergeDir < 0 then do {
         let merged = make_bytes BTREE_PAGE_SIZE;
         merged1 \<leftarrow> nodeMerge merged sibling updated;
         lptr \<leftarrow> getPtr node (u16_sub idx 1);
         tree3 \<leftarrow> tree_del tree2 lptr;
         (ptr, tree4) \<leftarrow> tree_new tree3 merged1;
         k \<leftarrow> getKey merged1 0;
         new1 \<leftarrow> nodeReplace2Kid new node (u16_sub idx 1) ptr k;
         Some (new1, tree4)
       }
       else if mergeDir > 0 then do {
         let merged = make_bytes BTREE_PAGE_SIZE;
         merged1 \<leftarrow> nodeMerge merged updated sibling;
         rptr \<leftarrow> getPtr node (u16 (idx + 1));
         tree3 \<leftarrow> tree_del tree2 rptr;
         (ptr, tree4) \<leftarrow> tree_new tree3 merged1;
         k \<leftarrow> getKey merged1 0;
         new1 \<leftarrow> nodeReplace2Kid new node idx ptr k;
         Some (new1, tree4)
       }
       else do {
         un \<leftarrow> nkeys updated;
         if un = 0 then do {
           n \<leftarrow> nkeys node;
           _ \<leftarrow> assert (n = 1 \<and> idx = 0);
           new1 \<leftarrow> setHeader new BNODE_NODE 0;
           Some (new1, tree2)
         }
         else nodeReplaceKidN tree2 new node idx [updated]
       }
     }
   }"

text \<open>
  The loop of \<open>Delete\<close> that links the pieces of a split root with \<open>setPtr\<close> and \<open>setKey\<close>.
\<close>

fun set_kids :: "BTree \<Rightarrow> BNode \<Rightarrow> nat \<Rightarrow> BNode list \<Rightarrow> (BNode \<times> BTree) option" where
  "set_kids tree newRoot i [] = Some (newRoot, tree)"
| "set_kids tree newRoot i (knode # kids) = do {
     (ptr, tree1) \<leftarrow> tree_new tree knode;
     newRoot1 \<leftarrow> setPtr newRoot (u16 i) ptr;
     key \<leftarrow> getKey knode 0;
     newRoot2 \<leftarrow> setKey newRoot1 (u16 i) key;
     set_kids tree1 newRoot2 (i + 1) kids
   }"

definition Delete :: "nat \<Rightarrow> BTree \<Rightarrow> byte list \<Rightarrow> (bool \<times> BTree) option" where
  "Delete fuel tree key =
     (if root tree = 0 then Some (False, tree)
      else do {
        rnode \<leftarrow> tree_get tree (root tree);
        (updated, tree1) \<leftarrow> treeDelete fuel tree rnode key;
        if length updated = 0 then Some (False, tree1)
        else do {
          tree2 \<leftarrow> tree_del tree1 (root tree1);
          t \<leftarrow> btype updated;
          done \<leftarrow> (if t = BNODE_NODE then do {
              n \<leftarrow> nkeys updated;
              if n = 1 then do {
                p \<leftarrow> getPtr updated 0;
                newRoot \<leftarrow> tree_get tree2 p;
                (ptr, tree3) \<leftarrow> tree_new tree2 newRoot;
                p' \<leftarrow> getPtr updated 0;
                tree4 \<leftarrow> tree_del (tree3\<lparr>root := ptr\<rparr>) p';
                Some (Some tree4)
              } else Some None
            }
            else if t = BNODE_LEAF then do {
              n \<leftarrow> nkeys updated;
              if n = 0 then Some (Some (tree2\<lparr>root := 0\<rparr>)) else Some None
            }
            else Some None);
          case done of
            Some tree' \<Rightarrow> Some (True, tree')
          | None \<Rightarrow> do {
              sz \<leftarrow> nbytes updated;
              if sz \<le> BTREE_PAGE_SIZE then do {
                (ptr, tree3) \<leftarrow> tree_new tree2 updated;
                Some (True, tree3\<lparr>root := ptr\<rparr>)
              } else do {
                (nsplit, split) \<leftarrow> nodeSplit3 updated;
                if nsplit > 1 then do {
                  let newRoot = make_bytes BTREE_PAGE_SIZE;
                  newRoot1 \<leftarrow> setHeader newRoot BNODE_NODE nsplit;
                  (newRoot2, tree3) \<leftarrow> set_kids tree2 newRoot1 0 (take nsplit split);
                  (ptr, tree4) \<leftarrow> tree_new tree3 newRoot2;
                  Some (True, tree4\<lparr>root := ptr\<rparr>)
                } else do {
                  (ptr, tree3) \<leftarrow> tree_new tree2 (split ! 0);
                  Some (True, tree3\<lparr>root := ptr\<rparr>)
                }
              }
            }
        }
      })"

section \<open>Retrieval\<close>

text \<open>
  Modelled from the spec: the repository has no lookup operation. The spec's retrieval is
  the traversal that at each internal node follows \<open>nodeLookUpLE\<close> and at the leaf checks
  the key at the index found for equality; it yields the value there, or nothing. It
  carries the same budget as \<open>treeInsert\<close> and \<open>treeDelete\<close>.
\<close>

fun treeLookup :: "nat \<Rightarrow> BTree \<Rightarrow> BNode \<Rightarrow> byte list \<Rightarrow> byte list option option" where
  "treeLookup 0 tree node key = None"
| "treeLookup (Suc fuel) tree node key = do {
     idx \<leftarrow> nodeLookUpLE node key;
     t \<leftarrow> btype node;
     if t = BNODE_LEAF then do {
       k \<leftarrow> getKey node idx;
       if key = k then do { v \<leftarrow> getVal node idx; Some (Some v) } else Some None
     }
     else if t = BNODE_NODE then do {
       kptr \<leftarrow> getPtr node idx;
       kid \<leftarrow> tree_get tree kptr;
       treeLookup fuel tree kid key
     }
     else None
   }"

definition Lookup :: "nat \<Rightarrow> BTree \<Rightarrow> byte list \<Rightarrow> byte list option option" where
  "Lookup fuel tree key =
     (if root tree = 0 then Some None
      else do { rnode \<leftarrow> tree_get tree (root tree); treeLookup fuel tree rnode key })"

section \<open>Observations used to state the properties\<close>

text \<open>The empty tree over a page manager that holds no page yet.\<close>

definition tree0 :: BTree where
  "tree0 = \<lparr>root = 0, pages = Map.empty, next_ptr = 1, new_calls = 0, del_calls = 0\<rparr>"

text \<open>An entry of a node as its accessors read it: pointer, key and value at an index.\<close>

definition entry :: "BNode \<Rightarrow> nat \<Rightarrow> nat option \<times> byte list option \<times> byte list option" where
  "entry node i = (getPtr node i, getKey node i, getVal node i)"

text \<open>
  The leaf that \<open>Insert\<close> builds for the first pair of an empty tree, as the buffer its
  writes leave behind: the header, the sentinel entry with the empty key at index 0, and
  the pair at index 1. \<open>first_tree\<close> is the tree after that first \<open>Insert\<close>.
\<close>

definition first_leaf :: "byte list \<Rightarrow> byte list \<Rightarrow> BNode" where
  "first_leaf key val =
     put16 (blit (blit (put16 (put16 (put64 (put16 (put16 (put16 (put64
       (put16 (put16 (make_bytes 4096) 0 2) 2 2) 4 0) 24 0) 26 0) 20 4) 12 0)
       28 (length key)) 30 (length val)) 32 key) (32 + length key) val)
       22 (8 + (length key + length val))"

definition first_tree :: "byte list \<Rightarrow> byte list \<Rightarrow> BTree" where
  "first_tree key val =
     \<lparr>root = 1, pages = [1 \<mapsto> first_leaf key val], next_ptr = 2, new_calls = 1, del_calls = 0\<rparr>"

text \<open>
  The tree after a second \<open>Insert\<close> of the key that \<open>first_tree\<close> holds: its only page
  is a page of zero bytes.
\<close>

definition zero_tree :: BTree where
  "zero_tree =
     \<lparr>root = 2, pages = [2 \<mapsto> make_bytes 4096], next_ptr = 3, new_calls = 2, del_calls = 1\<rparr>"

text \<open>
  The buffer that \<open>leafDelete\<close> leaves behind when the pair at index 1 of \<open>first_leaf\<close> is
  deleted: a leaf of one entry, the sentinel. \<open>sentinel_tree\<close> is the tree after that
  \<open>Delete\<close>.
\<close>

definition sentinel_leaf :: BNode where
  "sentinel_leaf =
     blit (put16 (put64 (put16 (put16 (make_bytes 8192) 0 2) 2 1) 4 0) 12 4) 14
       (take 4 (drop 24
          (put16 (put16 (put64 (put16 (put16 (make_bytes 4096) 0 2) 2 2) 4 0) 24 0) 26 0)))"

definition sentinel_tree :: BTree where
  "sentinel_tree =
     \<lparr>root = 2, pages = [2 \<mapsto> sentinel_leaf], next_ptr = 3, new_calls = 2, del_calls = 1\<rparr>"

text \<open>
  An internal node of three entries with the keys \<open>""\<close>, \<open>"b"\<close>, \<open>"c"\<close> and the
  pointers 11, 12, 13, and an oversized leaf in a scratch buffer of two pages: the sentinel
  and two pairs with values of 3000 bytes, 6048 bytes in all. Both are the buffers that
  \<open>setHeader\<close> and three calls of \<open>nodeAppendKV\<close> leave behind.
\<close>

definition internal3 :: BNode where
  "internal3 =
     put16 (blit (put16 (put16 (put64 (put16 (blit (put16 (put16 (put64 (put16 (put16 (put16
       (put64 (put16 (put16 (make_bytes 4096) 0 1) 2 3) 4 11) 34 0) 36 0) 28 4) 12 12)
       38 1) 40 0) 42 [98]) 30 9) 20 13) 43 1) 45 0) 47 [99]) 32 14"

definition big_leaf :: BNode where
  "big_leaf =
     put16 (blit (blit (put16 (put16 (put64 (put16 (blit (blit (put16 (put16 (put64 (put16
       (put16 (put16 (put64 (put16 (put16 (make_bytes 8192) 0 2) 2 3) 4 0) 34 0) 36 0)
       28 4) 12 0) 38 1) 40 3000) 42 [97]) 43 (replicate 3000 120)) 30 3009) 20 0)
       3043 1) 3045 3000) 3047 [98]) 3048 (replicate 3000 121)) 32 6014"

text \<open>
  A node of three entries whose keys \<open>""\<close>, \<open>"b"\<close>, \<open>"a"\<close> are not in ascending order.
\<close>

definition unsorted3 :: BNode where
  "unsorted3 =
     put16 (blit (put16 (put16 (put64 (put16 (blit (put16 (put16 (put64 (put16 (put16 (put16
       (put64 (put16 (put16 (make_bytes 4096) 0 2) 2 3) 4 0) 34 0) 36 0) 28 4) 12 0)
       38 1) 40 0) 42 [98]) 30 9) 20 0) 43 1) 45 0) 47 [97]) 32 14"

text \<open>
  The layout of a node that ends within its buffer: the header, \<open>n\<close> pointers, \<open>n\<close>
  offsets and \<open>n\<close> packed entries, where the offset of entry \<open>i + 1\<close> is the offset of
  entry \<open>i\<close> plus the four bytes of the two lengths, the key and the value. \<open>node_off\<close>
  is the offset of entry \<open>i\<close> of a node of \<open>n\<close> keys, \<open>node_size\<close> the size \<open>nbytes\<close>
  computes, without wrap-around. A scratch buffer is two pages long, so the size of a
  well-formed node is at most two pages.
\<close>

definition node_off :: "BNode \<Rightarrow> nat \<Rightarrow> nat \<Rightarrow> nat" where
  "node_off node n i = (if i = 0 then 0 else get16 node (HEADER + 8 * n + 2 * (i - 1)))"

definition node_size :: "BNode \<Rightarrow> nat" where
  "node_size node =
     HEADER + 10 * get16 node 2 + node_off node (get16 node 2) (get16 node 2)"

definition well_formed :: "BNode \<Rightarrow> bool" where
  "well_formed node \<longleftrightarrow>
     4 \<le> length node \<and>
     1 \<le> get16 node 2 \<and>
     node_size node \<le> length node \<and>
     node_size node \<le> 2 * BTREE_PAGE_SIZE \<and>
     (\<forall>i<get16 node 2.
        node_off node (get16 node 2) (Suc i) =
          node_off node (get16 node 2) i + 4
          + get16 node (HEADER + 10 * get16 node 2 + node_off node (get16 node 2) i)
          + get16 node (HEADER + 10 * get16 node 2 + node_off node (get16 node 2) i + 2))"





definition below :: "byte list \<Rightarrow> byte list option \<Rightarrow> bool" where
  "below k hi = (case hi of None \<Rightarrow> True | Some u \<Rightarrow> bytes_Compare k u < 0)"




definition one_leaf :: "byte list \<Rightarrow> byte list \<Rightarrow> BNode" where
  "one_leaf key val =
     put16 (blit (blit (put16 (put16 (put64 (put16 (put16 (make_bytes 4096) 0 2) 2 1) 4 0)
       14 (length key)) 16 (length val)) 18 key) (18 + length key) val)
       12 (4 + (length key + length val))"


section \<open>Reading after writing\<close>

text \<open>
  How the reads \<open>get16\<close>, \<open>get64\<close> and \<open>take n (drop q b)\<close> see through the writes
  \<open>put16\<close>, \<open>put64\<close> and \<open>blit\<close>: a read of the bytes just written returns them, a read
  of other bytes passes to the buffer below.
\<close>

lemma length_put16 [simp]: "length (put16 b p v) = length b"
  by (simp add: put16_def)

lemma length_put64 [simp]: "length (put64 b p v) = length b"
  by (simp add: put64_def)

lemma length_blit [simp]: "p \<le> length b \<Longrightarrow> length (blit b p src) = length b"
  by (simp add: blit_def)

lemma length_make_bytes [simp]: "length (make_bytes n) = n"
  by (simp add: make_bytes_def)

lemma nth_put16_other: "j \<noteq> p \<Longrightarrow> j \<noteq> p + 1 \<Longrightarrow> put16 b p v ! j = b ! j"
  by (simp add: put16_def)

lemma nth_put64_other: "j < p \<or> p + 8 \<le> j \<Longrightarrow> put64 b p v ! j = b ! j"
  by (auto simp add: put64_def)

lemma nth_blit_other:
  "p \<le> length b \<Longrightarrow> j < length b \<Longrightarrow> j < p \<or> p + length src \<le> j \<Longrightarrow> blit b p src ! j = b ! j"
  by (auto simp add: blit_def nth_append min_def)

lemma nth_blit_inside:
  "p + length src \<le> length b \<Longrightarrow> p \<le> j \<Longrightarrow> j < p + length src \<Longrightarrow>
   blit b p src ! j = src ! (j - p)"
  by (auto simp add: blit_def nth_append min_def)

lemma blit_Nil [simp]: "p \<le> length b \<Longrightarrow> blit b p [] = b"
  by (simp add: blit_def)

lemma unat_byte_of_nat: "unat (of_nat n :: byte) = n mod 256"
  by (simp add: unat_of_nat)

lemma get16_put16_same: "p + 1 < length b \<Longrightarrow> get16 (put16 b p v) p = v mod 65536"
proof -
  assume "p + 1 < length b"
  then have "get16 (put16 b p v) p = v mod 256 + 256 * (v div 256 mod 256)"
    by (simp add: get16_def put16_def unat_byte_of_nat)
  also have "\<dots> = v mod 65536"
    by (simp add: mod_mult2_eq [of v 256 256, simplified])
  finally show ?thesis .
qed

lemma get16_put16_other: "q + 1 < p \<or> p + 1 < q \<Longrightarrow> get16 (put16 b p v) q = get16 b q"
  by (auto simp add: get16_def nth_put16_other)

lemma get16_put64_other: "q + 1 < p \<or> p + 8 \<le> q \<Longrightarrow> get16 (put64 b p v) q = get16 b q"
  by (auto simp add: get16_def nth_put64_other)

lemma get16_blit_other:
  "p \<le> length b \<Longrightarrow> q + 1 < length b \<Longrightarrow> q + 1 < p \<or> p + length src \<le> q \<Longrightarrow>
   get16 (blit b p src) q = get16 b q"
  by (auto simp add: get16_def nth_blit_other)

lemma get16_blit_inside:
  "p + length src \<le> length b \<Longrightarrow> p \<le> q \<Longrightarrow> q + 2 \<le> p + length src \<Longrightarrow>
   get16 (blit b p src) q = get16 src (q - p)"
  by (simp add: get16_def nth_blit_inside Suc_diff_le)

lemma get16_seg:
  "k \<le> length b \<Longrightarrow> j + 2 \<le> m \<Longrightarrow> get16 (take m (drop k b)) j = get16 b (k + j)"
  by (simp add: get16_def)

lemma get16_make: "p + 1 < n \<Longrightarrow> get16 (make_bytes n) p = 0"
  by (simp add: get16_def make_bytes_def)

lemma get64_put16_other: "q + 7 < p \<or> p + 1 < q \<Longrightarrow> get64 (put16 b p v) q = get64 b q"
  by (auto simp add: get64_def nth_put16_other)

lemma get64_put64_other: "q + 7 < p \<or> p + 7 < q \<Longrightarrow> get64 (put64 b p v) q = get64 b q"
  by (auto simp add: get64_def nth_put64_other)

lemma get64_blit_other:
  "p \<le> length b \<Longrightarrow> q + 7 < length b \<Longrightarrow> q + 7 < p \<or> p + length src \<le> q \<Longrightarrow>
   get64 (blit b p src) q = get64 b q"
  by (auto simp add: get64_def nth_blit_other)

lemma get64_blit_inside:
  "p + length src \<le> length b \<Longrightarrow> p \<le> q \<Longrightarrow> q + 8 \<le> p + length src \<Longrightarrow>
   get64 (blit b p src) q = get64 src (q - p)"
  by (simp add: get64_def nth_blit_inside Suc_diff_le)

lemma get64_seg:
  "k \<le> length b \<Longrightarrow> j + 8 \<le> m \<Longrightarrow> get64 (take m (drop k b)) j = get64 b (k + j)"
  by (simp add: get64_def add.assoc)

lemma get64_make: "p + 7 < n \<Longrightarrow> get64 (make_bytes n) p = 0"
  by (simp add: get64_def make_bytes_def)

lemma mod256_step: "(v::nat) mod (256 * m) = v mod 256 + 256 * (v div 256 mod m)"
  by (simp add: mod_mult2_eq)

lemma digits256:
  "(v::nat) mod 256 + (v div 256 mod 256) * 256 + (v div 65536 mod 256) * 65536
     + (v div 16777216 mod 256) * 16777216 + (v div 4294967296 mod 256) * 4294967296
     + (v div 1099511627776 mod 256) * 1099511627776 + (v div 281474976710656 mod 256) * 281474976710656
     + (v div 72057594037927936 mod 256) * 72057594037927936 = v mod 18446744073709551616"
proof -
  have "v mod 18446744073709551616 = v mod (256 * (256 * (256 * (256 * (256 * (256 * (256 * 256)))))))"
    by simp
  also have "\<dots> = v mod 256 + 256 * (v div 256 mod 256 + 256 * (v div 256 div 256 mod 256
      + 256 * (v div 256 div 256 div 256 mod 256 + 256 * (v div 256 div 256 div 256 div 256 mod 256
      + 256 * (v div 256 div 256 div 256 div 256 div 256 mod 256
      + 256 * (v div 256 div 256 div 256 div 256 div 256 div 256 mod 256
      + 256 * (v div 256 div 256 div 256 div 256 div 256 div 256 div 256 mod 256)))))))"
    by (simp only: mod256_step)
  also have "\<dots> = v mod 256 + (v div 256 mod 256) * 256 + (v div 65536 mod 256) * 65536
     + (v div 16777216 mod 256) * 16777216 + (v div 4294967296 mod 256) * 4294967296
     + (v div 1099511627776 mod 256) * 1099511627776 + (v div 281474976710656 mod 256) * 281474976710656
     + (v div 72057594037927936 mod 256) * 72057594037927936"
    by (simp add: div_mult2_eq [symmetric] algebra_simps)
  finally show ?thesis by simp
qed

lemma get64_put64_same: "p + 7 < length b \<Longrightarrow> get64 (put64 b p v) p = v mod 18446744073709551616"
  using digits256 [of v] by (simp add: get64_def put64_def unat_byte_of_nat)

text \<open>Segments \<open>take n (drop q b)\<close> of a buffer, as the slices of the source read them.\<close>

lemma seg_eqI:
  assumes "length c = length b" and "\<And>j. q \<le> j \<Longrightarrow> j < q + n \<Longrightarrow> j < length b \<Longrightarrow> c ! j = b ! j"
  shows "take n (drop q c) = take n (drop q b)"
proof (cases "q \<le> length b")
  case True
  show ?thesis
  proof (rule nth_equalityI)
    show "length (take n (drop q c)) = length (take n (drop q b))"
      using assms(1) by simp
  next
    fix i assume "i < length (take n (drop q c))"
    then have i: "i < n" "q + i < length b"
      using assms(1) by auto
    then show "take n (drop q c) ! i = take n (drop q b) ! i"
      using True assms(1) assms(2) [of "q + i"] by simp
  qed
next
  case False
  then show ?thesis using assms(1) by simp
qed

lemma seg_put16_other: "q + n \<le> p \<or> p + 2 \<le> q \<Longrightarrow> take n (drop q (put16 b p v)) = take n (drop q b)"
  by (rule seg_eqI) (auto simp add: nth_put16_other)

lemma seg_put64_other: "q + n \<le> p \<or> p + 8 \<le> q \<Longrightarrow> take n (drop q (put64 b p v)) = take n (drop q b)"
  by (rule seg_eqI) (auto simp add: nth_put64_other)

lemma seg_blit_other:
  "p \<le> length b \<Longrightarrow> q + n \<le> p \<or> p + length src \<le> q \<Longrightarrow>
   take n (drop q (blit b p src)) = take n (drop q b)"
  by (rule seg_eqI) (auto simp add: nth_blit_other)

lemma seg_blit_same:
  "p + length src \<le> length b \<Longrightarrow> n = length src \<Longrightarrow> take n (drop p (blit b p src)) = src"
  by (simp add: blit_def)

lemma seg_blit_inside:
  "p + length src \<le> length b \<Longrightarrow> p \<le> q \<Longrightarrow> q + n \<le> p + length src \<Longrightarrow>
   take n (drop q (blit b p src)) = take n (drop (q - p) src)"
proof (rule nth_equalityI)
  assume a: "p + length src \<le> length b" "p \<le> q" "q + n \<le> p + length src"
  then show "length (take n (drop q (blit b p src))) = length (take n (drop (q - p) src))"
    by simp
  fix i assume "i < length (take n (drop q (blit b p src)))"
  then have "i < n" by simp
  then show "take n (drop q (blit b p src)) ! i = take n (drop (q - p) src) ! i"
    using a by (simp add: nth_blit_inside)
qed

lemma seg_make: "q + n \<le> m \<Longrightarrow> take n (drop q (make_bytes m)) = replicate n 0"
  by (simp add: make_bytes_def min_def)

lemma seg_seg: "j + n \<le> m \<Longrightarrow> take n (drop j (take m (drop k b))) = take n (drop (k + j) b)"
  by (simp add: take_drop min_def add.commute)

lemma get16_take: "q + 2 \<le> m \<Longrightarrow> get16 (take m b) q = get16 b q"
  by (simp add: get16_def)

lemma get64_take: "q + 8 \<le> m \<Longrightarrow> get64 (take m b) q = get64 b q"
  by (simp add: get64_def)

lemma seg_take: "q + n \<le> m \<Longrightarrow> take n (drop q (take m b)) = take n (drop q b)"
  by (simp add: drop_take min_def)

lemma take_make_bytes: "n \<le> m \<Longrightarrow> take n (make_bytes m) = make_bytes n"
  by (simp add: make_bytes_def min_def)

lemma put16_eq_Nil [simp]: "put16 b p v = [] \<longleftrightarrow> b = []"
  by (simp add: put16_def)

lemma put64_eq_Nil [simp]: "put64 b p v = [] \<longleftrightarrow> b = []"
  by (simp add: put64_def)

lemma make_bytes_eq_Nil [simp]: "make_bytes n = [] \<longleftrightarrow> n = 0"
  by (simp add: make_bytes_def)

lemma blit_eq_Nil: "p \<le> length b \<Longrightarrow> blit b p src = [] \<longleftrightarrow> b = []"
  using length_blit [of p b src] by (metis length_0_conv)

lemma get16_drop: "k \<le> length b \<Longrightarrow> get16 (drop k b) j = get16 b (k + j)"
  by (simp add: get16_def)

lemma get64_drop: "k \<le> length b \<Longrightarrow> get64 (drop k b) j = get64 b (k + j)"
  by (simp add: get64_def add.assoc)

lemma u16_sub_le: "b \<le> a \<Longrightarrow> a < 65536 \<Longrightarrow> u16_sub a b = a - b"
proof -
  assume "b \<le> a" and "a < 65536"
  then have "a mod 65536 + 65536 - b mod 65536 = (a - b) + 65536" and "a - b < 65536"
    by simp_all
  then show ?thesis
    by (simp add: u16_sub_def)
qed

text \<open>The rule sets that run the codec on a buffer given as a sequence of writes.\<close>

lemmas cdefs = HEADER_def BTREE_PAGE_SIZE_def BNODE_LEAF_def BNODE_NODE_def u16_def u16_sub_le
  BTREE_MAX_KEY_SIZE_def BTREE_MAX_VAL_SIZE_def

lemmas codec_defs = btype_def nkeys_def setHeader_def getPtr_def setPtr_def offsetPos_def
  getOffset_def setOffset_def kvPos_def getKey_def getVal_def nbytes_def setKey_def
  Uint16_def PutUint16_def Uint64_def PutUint64_def slice_def slice_from_def copy_at_def assert_def

lemmas frame = get16_put16_same get16_put16_other get16_put64_other get16_blit_other
  get16_blit_inside get16_seg get16_make get64_put16_other get64_put64_other get64_blit_other
  get64_blit_inside get64_seg get64_make get64_put64_same
  seg_put16_other seg_put64_other seg_blit_other seg_blit_same seg_blit_inside seg_make seg_seg

lemmas exec = cdefs codec_defs frame get16_take get64_take seg_take get16_drop get64_drop
  blit_eq_Nil Let_def upt_conv_Cons

declare treeInsert.simps [simp del] nodeInsert.simps [simp del] treeDelete.simps [simp del]
  nodeDelete.simps [simp del] treeLookup.simps [simp del]

section \<open>Writes keep the length of the buffer\<close>

lemma length_PutUint16: "PutUint16 b p v = Some b' \<Longrightarrow> length b' = length b"
  by (auto simp add: PutUint16_def split: if_splits)

lemma length_PutUint64: "PutUint64 b p v = Some b' \<Longrightarrow> length b' = length b"
  by (auto simp add: PutUint64_def split: if_splits)

lemma length_copy_at: "copy_at b p src = Some b' \<Longrightarrow> length b' = length b"
  by (auto simp add: copy_at_def split: if_splits)

lemma length_setHeader: "setHeader b t n = Some b' \<Longrightarrow> length b' = length b"
  by (auto simp add: setHeader_def split: if_splits)

lemma length_setPtr: "setPtr b i p = Some b' \<Longrightarrow> length b' = length b"
  by (auto simp add: setPtr_def dest: length_PutUint64 split: bind_splits)

lemma length_setOffset: "setOffset b i v = Some b' \<Longrightarrow> length b' = length b"
  by (auto simp add: setOffset_def dest: length_PutUint16 split: bind_splits)

lemma length_setKey: "setKey b i k = Some b' \<Longrightarrow> length b' = length b"
  by (auto simp add: setKey_def Let_def dest!: length_PutUint16 length_copy_at split: bind_splits)

lemma length_nodeAppendKV: "nodeAppendKV b i p k v = Some b' \<Longrightarrow> length b' = length b"
  by (auto simp add: nodeAppendKV_def
      dest!: length_PutUint16 length_copy_at length_setPtr length_setOffset split: bind_splits)

lemma length_for_loop:
  assumes "\<And>i c c'. body i c = Some c' \<Longrightarrow> length c' = length c"
  shows "for_loop is body b = Some b' \<Longrightarrow> length b' = length b"
proof (induction "is" arbitrary: b)
  case Nil
  then show ?case by simp
next
  case (Cons i "is")
  then show ?case using assms by (auto split: bind_splits)
qed

lemma length_nodeAppendRange:
  assumes "nodeAppendRange new old d s n = Some new'"
  shows "length new' = length new"
proof (cases "n = 0")
  case True
  with assms show ?thesis
    by (auto simp add: nodeAppendRange_def split: bind_splits)
next
  case False
  from assms False obtain new1 dstBegin srcBegin new2 pos kvs where
    l1: "for_loop [0..<n]
         (\<lambda>i b. do { p \<leftarrow> getPtr old (u16 (s + i)); setPtr b (u16 (d + i)) p }) new = Some new1"
    and l2: "for_loop [1..<n + 1]
         (\<lambda>i b. do {
            off \<leftarrow> getOffset old (u16 (s + i));
            setOffset b (u16 (d + i)) (u16 (dstBegin + u16_sub off srcBegin))
          }) new1 = Some new2"
    and c: "copy_at new2 pos kvs = Some new'"
    by (auto simp add: nodeAppendRange_def split: bind_splits)
  have "length new1 = length new"
    by (rule length_for_loop [OF _ l1]) (auto dest: length_setPtr split: bind_splits)
  moreover have "length new2 = length new1"
    by (rule length_for_loop [OF _ l2]) (auto dest: length_setOffset split: bind_splits)
  ultimately show ?thesis
    using length_copy_at [OF c] by simp
qed

lemma length_leafDelete: "leafDelete new old i = Some new' \<Longrightarrow> length new' = length new"
  by (auto simp add: leafDelete_def dest!: length_setHeader length_nodeAppendRange split: bind_splits)

lemma length_leafInsert: "leafInsert new old i k v = Some new' \<Longrightarrow> length new' = length new"
  by (auto simp add: leafInsert_def dest!: length_setHeader length_nodeAppendRange split: bind_splits)

lemma length_nodeReplace2Kid:
  "nodeReplace2Kid new old i p k = Some new' \<Longrightarrow> length new' = length new"
  by (auto simp add: nodeReplace2Kid_def
      dest!: length_setHeader length_nodeAppendRange length_setPtr length_setKey split: bind_splits)

lemma length_append_kids:
  "append_kids tree new idx i kids = Some (new', tree') \<Longrightarrow> length new' = length new"
proof (induction kids arbitrary: tree new i)
  case Nil
  then show ?case by simp
next
  case (Cons node kids)
  then show ?case
    by (auto dest!: length_nodeAppendKV split: bind_splits)
qed

lemma length_nodeReplaceKidN:
  "nodeReplaceKidN tree new old idx kids = Some (new', tree') \<Longrightarrow> length new' = length new"
  by (auto simp add: nodeReplaceKidN_def Let_def
      dest!: length_setHeader length_nodeAppendRange length_append_kids split: bind_splits)

section \<open>A deletion that finds nothing\<close>

lemma nodeDelete_nonempty:
  assumes "nodeDelete fuel tree node idx key = Some (new', tree')"
    and "new' \<noteq> []"
  shows "\<exists>kptr kid updated tree1. getPtr node idx = Some kptr \<and> tree_get tree kptr = Some kid
      \<and> treeDelete fuel tree kid key = Some (updated, tree1) \<and> updated \<noteq> []"
  using assms by (auto simp add: nodeDelete.simps split: bind_splits if_splits)

lemma nodeDelete_result_length:
  assumes "nodeDelete fuel tree node idx key = Some (new', tree')"
    and "getPtr node idx = Some kptr" and "tree_get tree kptr = Some kid"
    and "treeDelete fuel tree kid key = Some (updated, tree1)" and "updated \<noteq> []"
  shows "length new' = BTREE_PAGE_SIZE"
  using assms
  by (auto simp add: nodeDelete.simps Let_def
      dest!: length_setHeader length_nodeReplace2Kid length_nodeReplaceKidN
      split: bind_splits if_splits)


lemma nodeDelete_empty_iff:
  assumes IH: "\<And>node tree'. treeDelete fuel tree node key = Some ([], tree') \<longleftrightarrow>
                 tree' = tree \<and> treeLookup fuel tree node key = Some None"
  shows "nodeDelete fuel tree node idx key = Some ([], tree') \<longleftrightarrow>
           tree' = tree \<and>
           do { kptr \<leftarrow> getPtr node idx; kid \<leftarrow> tree_get tree kptr; treeLookup fuel tree kid key }
             = Some None"
proof (cases "getPtr node idx")
  case None
  then show ?thesis by (simp add: nodeDelete.simps)
next
  case (Some kptr)
  note kptr = this
  show ?thesis
  proof (cases "tree_get tree kptr")
    case None
    with kptr show ?thesis by (simp add: nodeDelete.simps)
  next
    case (Some kid)
    note kid = this
    show ?thesis
    proof (cases "treeDelete fuel tree kid key")
      case None
      with kptr kid IH [of kid] show ?thesis
        by (auto simp add: nodeDelete.simps)
    next
      case (Some r)
      obtain updated tree1 where r: "r = (updated, tree1)" by (cases r)
      show ?thesis
      proof (cases "updated = []")
        case True
        with kptr kid Some r IH [of kid tree1] show ?thesis
          by (auto simp add: nodeDelete.simps)
      next
        case False
        have "nodeDelete fuel tree node idx key \<noteq> Some ([], tree')"
        proof
          assume a: "nodeDelete fuel tree node idx key = Some ([], tree')"
          from nodeDelete_result_length [OF a kptr kid Some [unfolded r] False]
          show False by (simp add: BTREE_PAGE_SIZE_def)
        qed
        moreover have "treeLookup fuel tree kid key \<noteq> Some None"
          using IH [of kid tree] Some r False by auto
        ultimately show ?thesis using kptr kid by simp
      qed
    qed
  qed
qed

lemma treeDelete_empty_iff:
  "treeDelete fuel tree node key = Some ([], tree') \<longleftrightarrow>
     tree' = tree \<and> treeLookup fuel tree node key = Some None"
proof (induction fuel arbitrary: node tree')
  case 0
  show ?case by (simp add: treeDelete.simps treeLookup.simps)
next
  case (Suc fuel)
  show ?case
  proof (cases "nodeLookUpLE node key")
    case None
    then show ?thesis by (simp add: treeDelete.simps treeLookup.simps)
  next
    case (Some idx)
    note idx = this
    show ?thesis
    proof (cases "btype node")
      case None
      with idx show ?thesis by (simp add: treeDelete.simps treeLookup.simps)
    next
      case (Some t)
      note t = this
      consider (leaf) "t = BNODE_LEAF" | (node) "t \<noteq> BNODE_LEAF" "t = BNODE_NODE"
        | (bad) "t \<noteq> BNODE_LEAF" "t \<noteq> BNODE_NODE" by blast
      then show ?thesis
      proof cases
        case leaf
        show ?thesis
        proof (cases "getKey node idx")
          case None
          with idx t leaf show ?thesis by (simp add: treeDelete.simps treeLookup.simps)
        next
          case (Some k)
          show ?thesis
          proof (cases "key = k")
            case True
            have "treeDelete (Suc fuel) tree node key \<noteq> Some ([], tree')"
            proof
              assume "treeDelete (Suc fuel) tree node key = Some ([], tree')"
              with idx t leaf Some True
              have "leafDelete (make_bytes (2 * BTREE_PAGE_SIZE)) node idx = Some []"
                by (auto simp add: treeDelete.simps Let_def split: bind_splits)
              from length_leafDelete [OF this] show False
                by (simp add: make_bytes_def BTREE_PAGE_SIZE_def)
            qed
            moreover have "treeLookup (Suc fuel) tree node key \<noteq> Some None"
              using idx t leaf Some True
              by (auto simp add: treeLookup.simps split: bind_splits)
            ultimately show ?thesis by simp
          next
            case False
            with idx t leaf Some show ?thesis
              by (auto simp add: treeDelete.simps treeLookup.simps Let_def)
          qed
        qed
      next
        case node
        with idx t nodeDelete_empty_iff [of fuel tree key node idx tree', OF Suc.IH]
        show ?thesis
          by (simp add: treeDelete.simps treeLookup.simps Let_def)
      next
        case bad
        with idx t show ?thesis by (simp add: treeDelete.simps treeLookup.simps)
      qed
    qed
  qed
qed

lemma treeDelete_Some_empty:
  "treeDelete fuel tree node key = Some (updated, tree') \<Longrightarrow> updated = [] \<Longrightarrow> tree' = tree"
  using treeDelete_empty_iff by blast

section \<open>The first leaf\<close>

lemma Insert_tree0:
  "length key \<le> BTREE_MAX_KEY_SIZE \<Longrightarrow> length val \<le> BTREE_MAX_VAL_SIZE \<Longrightarrow>
   Insert fuel tree0 key val = Some (first_tree key val)"
  by (simp add: Insert_def tree0_def first_tree_def first_leaf_def nodeAppendKV_def tree_new_def exec)

lemma first_leaf_header:
  assumes "length key \<le> 1000" and "length val \<le> 3000"
  shows "length (first_leaf key val) = 4096"
    and "btype (first_leaf key val) = Some 2"
    and "nkeys (first_leaf key val) = Some 2"
    and "nbytes (first_leaf key val) = Some (32 + length key + length val)"
  using assms by (simp_all add: first_leaf_def exec)

lemma first_leaf_entries:
  assumes "length key \<le> 1000" and "length val \<le> 3000"
  shows "getKey (first_leaf key val) 0 = Some []"
    and "getKey (first_leaf key val) (Suc 0) = Some key"
    and "getVal (first_leaf key val) 0 = Some []"
    and "getVal (first_leaf key val) (Suc 0) = Some val"
  using assms by (simp_all add: first_leaf_def exec)

lemma bytes_Compare_refl [simp]: "bytes_Compare k k = 0"
  by (induction k) simp_all

lemma nodeLookUpLE_first_leaf_same:
  "length key \<le> 1000 \<Longrightarrow> length val \<le> 3000 \<Longrightarrow> nodeLookUpLE (first_leaf key val) key = Some 1"
  by (simp add: nodeLookUpLE_def first_leaf_header first_leaf_entries upt_conv_Cons)

lemma nbytes_make_bytes: "4 \<le> n \<Longrightarrow> nbytes (make_bytes n) = Some 4"
  by (simp add: exec)

lemma nodeSplit3_make_bytes: "nodeSplit3 (make_bytes 8192) = Some (1, [make_bytes 4096, [], []])"
  by (simp add: nodeSplit3_def nbytes_make_bytes BTREE_PAGE_SIZE_def slice_def take_make_bytes)

lemma treeInsert_same_key:
  "length key \<le> 1000 \<Longrightarrow> length val \<le> 3000 \<Longrightarrow>
   treeInsert (Suc fuel) tree (first_leaf key val) key val' = Some (make_bytes 8192, tree)"
  by (simp add: treeInsert.simps nodeLookUpLE_first_leaf_same first_leaf_header first_leaf_entries
      BNODE_LEAF_def BTREE_PAGE_SIZE_def Let_def)

lemma Insert_same_key:
  "length key \<le> 1000 \<Longrightarrow> length val \<le> 3000 \<Longrightarrow>
   Insert (Suc fuel) (first_tree key val) key val' = Some zero_tree"
  by (simp add: Insert_def first_tree_def tree_get_def treeInsert_same_key nodeSplit3_make_bytes
      tree_del_def tree_new_def nbytes_make_bytes assert_def BTREE_PAGE_SIZE_def zero_tree_def)

lemma btype_make_bytes: "2 \<le> n \<Longrightarrow> btype (make_bytes n) = Some 0"
  by (simp add: exec)

lemma Lookup_zero_tree: "Lookup (Suc fuel) zero_tree key = None"
  by (simp add: Lookup_def zero_tree_def tree_get_def treeLookup.simps nodeLookUpLE_def exec)

section \<open>Deleting from the first leaf\<close>

lemma leafDelete_first_leaf_1:
  "length key \<le> 1000 \<Longrightarrow> length val \<le> 3000 \<Longrightarrow>
   leafDelete (make_bytes 8192) (first_leaf key val) (Suc 0) = Some sentinel_leaf"
  by (simp add: leafDelete_def nodeAppendRange_def first_leaf_def sentinel_leaf_def exec)

lemma sentinel_leaf_header:
  "length sentinel_leaf = 8192" "btype sentinel_leaf = Some 2" "nkeys sentinel_leaf = Some (Suc 0)"
  "nbytes sentinel_leaf = Some 18" "getKey sentinel_leaf 0 = Some []"
  by (simp_all add: sentinel_leaf_def exec)

lemma sentinel_leaf_nonempty: "sentinel_leaf \<noteq> []"
  by (simp add: sentinel_leaf_def blit_eq_Nil)

lemma treeDelete_first_leaf_key:
  "length key \<le> 1000 \<Longrightarrow> length val \<le> 3000 \<Longrightarrow>
   treeDelete (Suc fuel) tree (first_leaf key val) key = Some (sentinel_leaf, tree)"
  by (simp add: treeDelete.simps nodeLookUpLE_first_leaf_same first_leaf_header first_leaf_entries
      leafDelete_first_leaf_1 BNODE_LEAF_def BTREE_PAGE_SIZE_def Let_def)

lemma Delete_first_tree_key:
  "length key \<le> 1000 \<Longrightarrow> length val \<le> 3000 \<Longrightarrow>
   Delete (Suc fuel) (first_tree key val) key = Some (True, sentinel_tree)"
  by (simp add: Delete_def first_tree_def sentinel_tree_def tree_get_def treeDelete_first_leaf_key
      sentinel_leaf_header sentinel_leaf_nonempty tree_del_def tree_new_def assert_def
      BNODE_LEAF_def BNODE_NODE_def BTREE_PAGE_SIZE_def)

lemma bytes_Compare_Nil_right: "key \<noteq> [] \<Longrightarrow> bytes_Compare key [] = 1"
  by (cases key) simp_all

lemma nodeLookUpLE_first_leaf_empty:
  "length key \<le> 1000 \<Longrightarrow> length val \<le> 3000 \<Longrightarrow> key \<noteq> [] \<Longrightarrow>
   nodeLookUpLE (first_leaf key val) [] = Some 0"
  by (simp add: nodeLookUpLE_def first_leaf_header first_leaf_entries upt_conv_Cons
      bytes_Compare_Nil_right)

lemma Lookup_first_tree_key:
  "length key \<le> 1000 \<Longrightarrow> length val \<le> 3000 \<Longrightarrow>
   Lookup (Suc fuel) (first_tree key val) key = Some (Some val)"
  by (simp add: Lookup_def first_tree_def tree_get_def treeLookup.simps
      nodeLookUpLE_first_leaf_same first_leaf_header first_leaf_entries BNODE_LEAF_def)

lemma Lookup_first_tree_empty:
  "length key \<le> 1000 \<Longrightarrow> length val \<le> 3000 \<Longrightarrow> key \<noteq> [] \<Longrightarrow>
   Lookup (Suc fuel) (first_tree key val) [] = Some (Some [])"
  by (simp add: Lookup_def first_tree_def tree_get_def treeLookup.simps
      nodeLookUpLE_first_leaf_empty first_leaf_header first_leaf_entries BNODE_LEAF_def)

lemma treeInsert_empty_key:
  "length key \<le> 1000 \<Longrightarrow> length val \<le> 3000 \<Longrightarrow> key \<noteq> [] \<Longrightarrow>
   treeInsert (Suc fuel) tree (first_leaf key val) [] val' = Some (make_bytes 8192, tree)"
  by (simp add: treeInsert.simps nodeLookUpLE_first_leaf_empty first_leaf_header first_leaf_entries
      BNODE_LEAF_def BTREE_PAGE_SIZE_def Let_def)

lemma Insert_empty_key:
  "length key \<le> 1000 \<Longrightarrow> length val \<le> 3000 \<Longrightarrow> key \<noteq> [] \<Longrightarrow>
   Insert (Suc fuel) (first_tree key val) [] val' = Some zero_tree"
  by (simp add: Insert_def first_tree_def tree_get_def treeInsert_empty_key nodeSplit3_make_bytes
      tree_del_def tree_new_def nbytes_make_bytes assert_def BTREE_PAGE_SIZE_def zero_tree_def)

lemma leafDelete_first_leaf_0_key:
  "length key \<le> 1000 \<Longrightarrow> length val \<le> 3000 \<Longrightarrow> key \<noteq> [] \<Longrightarrow>
   \<exists>node. leafDelete (make_bytes 8192) (first_leaf key val) 0 = Some node \<and> node \<noteq> [] \<and>
     btype node = Some 2 \<and> nkeys node = Some 1 \<and> nbytes node = Some (18 + length key + length val) \<and>
     getKey node 0 = Some key"
  by (simp add: leafDelete_def nodeAppendRange_def first_leaf_def exec)

lemma Delete_first_tree_sentinel:
  assumes "length key \<le> 1000" and "length val \<le> 3000" and "key \<noteq> []"
  shows "\<exists>node. Delete (Suc fuel) (first_tree key val) [] =
           Some (True, \<lparr>root = 2, pages = [2 \<mapsto> node], next_ptr = 3, new_calls = 2, del_calls = 1\<rparr>) \<and>
           btype node = Some 2 \<and> nkeys node = Some 1 \<and> getKey node 0 = Some key"
proof -
  from leafDelete_first_leaf_0_key [OF assms] obtain node where
    n: "leafDelete (make_bytes 8192) (first_leaf key val) 0 = Some node" "node \<noteq> []"
    "btype node = Some 2" "nkeys node = Some 1" "nbytes node = Some (18 + length key + length val)"
    "getKey node 0 = Some key"
    by blast
  have "treeDelete (Suc fuel) (first_tree key val) (first_leaf key val) [] = Some (node, first_tree key val)"
    using assms n(1)
    by (simp add: treeDelete.simps nodeLookUpLE_first_leaf_empty first_leaf_header first_leaf_entries
        BNODE_LEAF_def BTREE_PAGE_SIZE_def Let_def)
  then have "Delete (Suc fuel) (first_tree key val) [] =
           Some (True, \<lparr>root = 2, pages = [2 \<mapsto> node], next_ptr = 3, new_calls = 2, del_calls = 1\<rparr>)"
    using assms n(2-)
    by (simp add: Delete_def first_tree_def tree_get_def tree_del_def tree_new_def assert_def
        BNODE_LEAF_def BNODE_NODE_def BTREE_PAGE_SIZE_def)
  with n show ?thesis by blast
qed

text \<open>A root page of zero bytes has type 0, and \<open>treeDelete\<close> panics on it.\<close>

lemma Delete_zero_tree: "Delete (Suc fuel) zero_tree key = None"
  by (simp add: Delete_def zero_tree_def tree_get_def treeDelete.simps nodeLookUpLE_def exec)

section \<open>Two more nodes\<close>

lemma internal3_built:
  "do { b \<leftarrow> setHeader (make_bytes 4096) BNODE_NODE 3; b \<leftarrow> nodeAppendKV b 0 11 [] [];
        b \<leftarrow> nodeAppendKV b 1 12 [98] []; nodeAppendKV b 2 13 [99] [] } = Some internal3"
  by (simp add: nodeAppendKV_def internal3_def exec)

lemma big_leaf_built:
  "do { b \<leftarrow> setHeader (make_bytes 8192) BNODE_LEAF 3; b \<leftarrow> nodeAppendKV b 0 0 [] [];
        b \<leftarrow> nodeAppendKV b 1 0 [97] (replicate 3000 120);
        nodeAppendKV b 2 0 [98] (replicate 3000 121) } = Some big_leaf"
  by (simp add: nodeAppendKV_def big_leaf_def exec)

lemma nodeSplit3_oversize:
  assumes "nbytes old = Some sz" and "BTREE_PAGE_SIZE < sz"
  shows "nodeSplit3 old = Some (2, [make_bytes BTREE_PAGE_SIZE, make_bytes BTREE_PAGE_SIZE, []])"
  using assms
  by (simp add: nodeSplit3_def nbytes_make_bytes BTREE_PAGE_SIZE_def slice_def take_make_bytes Let_def)

lemma nkeys_make_bytes: "4 \<le> n \<Longrightarrow> nkeys (make_bytes n) = Some 0"
  by (simp add: nkeys_def get16_make)

lemma big_leaf_size: "nbytes big_leaf = Some 6048" "nkeys big_leaf = Some 3"
  by (simp_all add: big_leaf_def exec)

lemma internal3_entry2: "entry internal3 2 = (Some 13, Some [99], Some [])"
  by (simp add: entry_def internal3_def exec)

section \<open>The scan of a node with ascending keys\<close>

text \<open>
  \<open>bytes_Compare\<close> is the comparison of the lexicographic order on lists of bytes.
\<close>

lemma bytes_Compare_conv:
  "bytes_Compare a b = (if a < b then - 1 else if a = b then 0 else 1)"
proof (induction a b rule: bytes_Compare.induct)
  case 1
  show ?case by simp
next
  case (2 y ys)
  show ?case by simp
next
  case (3 x xs)
  show ?case by simp
next
  case (4 x xs y ys)
  then show ?case by auto
qed

lemma bytes_Compare_le0: "bytes_Compare a b \<le> 0 \<longleftrightarrow> a \<le> b"
  by (auto simp add: bytes_Compare_conv)

lemma bytes_Compare_less0: "bytes_Compare a b < 0 \<longleftrightarrow> a < b"
  by (auto simp add: bytes_Compare_conv)

lemma bytes_Compare_ge0: "0 \<le> bytes_Compare a b \<longleftrightarrow> b \<le> a"
  by (auto simp add: bytes_Compare_conv)

lemma bytes_Compare_gt0: "0 < bytes_Compare a b \<longleftrightarrow> b < a"
  by (auto simp add: bytes_Compare_conv)

text \<open>
  The scan from index \<open>i\<close> on, when the keys below \<open>i\<close> (from 1 on) are all less than
  \<open>key\<close> and \<open>found\<close> is \<open>i - 1\<close>.
\<close>

lemma lookup_scan_largest:
  assumes keys: "\<And>j. j < n \<Longrightarrow> getKey node j = Some (ks ! j)"
    and sorted: "\<And>a b. 1 \<le> a \<Longrightarrow> a < b \<Longrightarrow> b < n \<Longrightarrow> ks ! a < ks ! b"
    and i: "1 \<le> i" "i \<le> n"
    and below: "\<And>j. 1 \<le> j \<Longrightarrow> j < i \<Longrightarrow> ks ! j < key"
    and zero: "ks ! 0 \<le> key"
  shows "\<exists>r. lookup_scan node key [i..<n] (i - 1) = Some r \<and> r < n \<and> ks ! r \<le> key \<and>
           (\<forall>j. 1 \<le> j \<and> j < n \<and> ks ! j \<le> key \<longrightarrow> j \<le> r)"
  using i below
proof (induction "n - i" arbitrary: i)
  case 0
  then have "i = n" by simp
  moreover have "ks ! (n - 1) \<le> key"
  proof (cases "n = 1")
    case True
    then show ?thesis using zero by simp
  next
    case False
    then show ?thesis using 0 \<open>i = n\<close> by (simp add: less_imp_le)
  qed
  ultimately show ?case using 0 by auto
next
  case (Suc d)
  then have lt: "i < n" by simp
  then have upt: "[i..<n] = i # [Suc i..<n]" by (simp add: upt_conv_Cons)
  have k: "getKey node i = Some (ks ! i)" using keys lt by simp
  consider (less) "ks ! i < key" | (eq) "ks ! i = key" | (greater) "key < ks ! i"
    by (rule linorder_cases)
  then show ?case
  proof cases
    case less
    have d: "d = n - Suc i" using Suc.hyps(2) by simp
    have b: "\<And>j. 1 \<le> j \<Longrightarrow> j < Suc i \<Longrightarrow> ks ! j < key"
      using Suc.prems(3) less by (metis less_Suc_eq)
    from Suc.hyps(1) [OF d _ _ b] lt
    obtain r where "lookup_scan node key [Suc i..<n] (Suc i - 1) = Some r" "r < n" "ks ! r \<le> key"
      "\<forall>j. 1 \<le> j \<and> j < n \<and> ks ! j \<le> key \<longrightarrow> j \<le> r"
      by auto
    moreover have "ks ! i \<le> key" "\<not> key \<le> ks ! i"
      using less by simp_all
    ultimately show ?thesis
      using k upt by (simp add: Let_def bytes_Compare_le0 bytes_Compare_ge0)
  next
    case eq
    have "\<And>j. 1 \<le> j \<Longrightarrow> j < n \<Longrightarrow> ks ! j \<le> key \<Longrightarrow> j \<le> i"
    proof (rule ccontr)
      fix j assume j: "1 \<le> j" "j < n" "ks ! j \<le> key" "\<not> j \<le> i"
      then have "ks ! i < ks ! j" using sorted [of i j] Suc.prems(1) by simp
      with j(3) eq show False by simp
    qed
    then show ?thesis
      using eq k upt lt by (auto simp add: Let_def bytes_Compare_le0 bytes_Compare_ge0)
  next
    case greater
    have p: "ks ! (i - 1) \<le> key"
    proof (cases "i = 1")
      case True
      then show ?thesis using zero by simp
    next
      case False
      then show ?thesis using Suc.prems(1) Suc.prems(3) [of "i - 1"] by (simp add: less_imp_le)
    qed
    have "\<And>j. 1 \<le> j \<Longrightarrow> j < n \<Longrightarrow> ks ! j \<le> key \<Longrightarrow> j \<le> i - 1"
    proof (rule ccontr)
      fix j assume j: "1 \<le> j" "j < n" "ks ! j \<le> key" "\<not> j \<le> i - 1"
      then have "i \<le> j" by simp
      then have "ks ! i \<le> ks ! j"
        using sorted [of i j] Suc.prems(1) j(2) by (cases "i = j") (simp_all add: less_imp_le)
      with j(3) greater show False by simp
    qed
    then show ?thesis
      using greater k upt lt p Suc.prems(1)
      by (auto simp add: Let_def bytes_Compare_le0 bytes_Compare_ge0)
  qed
qed

lemma unsorted3_built:
  "do { b \<leftarrow> setHeader (make_bytes 4096) BNODE_LEAF 3; b \<leftarrow> nodeAppendKV b 0 0 [] [];
        b \<leftarrow> nodeAppendKV b 1 0 [98] []; nodeAppendKV b 2 0 [97] [] } = Some unsorted3"
  by (simp add: nodeAppendKV_def unsorted3_def exec)

lemma unsorted3_keys:
  "nkeys unsorted3 = Some 3" "getKey unsorted3 0 = Some []" "getKey unsorted3 (Suc 0) = Some [98]"
  "getKey unsorted3 2 = Some [97]"
  by (simp_all add: unsorted3_def exec)

lemma internal3_keys:
  "nkeys internal3 = Some 3" "getKey internal3 0 = Some []" "getKey internal3 (Suc 0) = Some [98]"
  "getKey internal3 2 = Some [99]"
  by (simp_all add: internal3_def exec)

section \<open>Writing into the scratch buffer\<close>

lemma u16_id: "x < 65536 \<Longrightarrow> u16 x = x"
  by (simp add: u16_def)

lemma get16_less: "get16 b p < 65536"
proof -
  have "unat (b ! p) < 256" "unat (b ! (p + 1)) < 256"
    using unsigned_less [of "b ! p"] unsigned_less [of "b ! (p + 1)"] by simp_all
  then show ?thesis by (simp add: get16_def)
qed

lemma for_loop_invariant:
  assumes "I b"
    and "\<And>i c. i \<in> set is \<Longrightarrow> I c \<Longrightarrow> \<exists>c'. body i c = Some c' \<and> I c'"
  shows "\<exists>b'. for_loop is body b = Some b' \<and> I b'"
  using assms
proof (induction "is" arbitrary: b)
  case Nil
  then show ?case by simp
next
  case (Cons i "is")
  from Cons.prems(2) [of i b] Cons.prems(1) obtain c where c: "body i b = Some c" "I c"
    by auto
  from Cons.IH [OF c(2)] Cons.prems(2) obtain b' where "for_loop is body c = Some b'" "I b'"
    by auto
  with c show ?case by simp
qed

text \<open>The accessors of the source on a well-formed node.\<close>

lemma wf_basic:
  assumes "well_formed old"
  shows "nkeys old = Some (get16 old 2)" and "1 \<le> get16 old 2"
    and "HEADER + 10 * get16 old 2 + node_off old (get16 old 2) (get16 old 2) \<le> length old"
    and "HEADER + 10 * get16 old 2 + node_off old (get16 old 2) (get16 old 2) \<le> 8192"
  using assms by (simp_all add: well_formed_def nkeys_def node_size_def BTREE_PAGE_SIZE_def)

lemma wf_off_step:
  assumes "well_formed old" and "i < get16 old 2"
  shows "node_off old (get16 old 2) (Suc i) =
          node_off old (get16 old 2) i + 4
          + get16 old (HEADER + 10 * get16 old 2 + node_off old (get16 old 2) i)
          + get16 old (HEADER + 10 * get16 old 2 + node_off old (get16 old 2) i + 2)"
  using assms by (simp add: well_formed_def)

lemma wf_off_mono:
  assumes "well_formed old" and "i \<le> j" and "j \<le> get16 old 2"
  shows "node_off old (get16 old 2) i \<le> node_off old (get16 old 2) j"
  using assms(2,3)
proof (induction j)
  case 0
  then show ?case by simp
next
  case (Suc j)
  show ?case
  proof (cases "i = Suc j")
    case True
    then show ?thesis by simp
  next
    case False
    with Suc have "node_off old (get16 old 2) i \<le> node_off old (get16 old 2) j" by simp
    moreover have "node_off old (get16 old 2) j \<le> node_off old (get16 old 2) (Suc j)"
      using wf_off_step [OF assms(1), of j] Suc.prems(2) by simp
    ultimately show ?thesis by simp
  qed
qed

lemma wf_getOffset:
  assumes "well_formed old" and "i \<le> get16 old 2"
  shows "getOffset old i = Some (node_off old (get16 old 2) i)"
proof (cases "i = 0")
  case True
  then show ?thesis by (simp add: getOffset_def node_off_def)
next
  case False
  have "HEADER + 10 * get16 old 2 \<le> length old" "HEADER + 10 * get16 old 2 \<le> 8192"
    using wf_basic(3,4) [OF assms(1)] by simp_all
  with False assms(2) wf_basic(1) [OF assms(1)] show ?thesis
    by (simp add: getOffset_def offsetPos_def assert_def Uint16_def node_off_def HEADER_def u16_def)
qed

lemma wf_kvPos:
  assumes "well_formed old" and "i \<le> get16 old 2"
  shows "kvPos old i = Some (HEADER + 10 * get16 old 2 + node_off old (get16 old 2) i)"
proof -
  have "node_off old (get16 old 2) i \<le> node_off old (get16 old 2) (get16 old 2)"
    using wf_off_mono [OF assms(1) assms(2)] by simp
  with wf_basic(4) [OF assms(1)] have "HEADER + 10 * get16 old 2 + node_off old (get16 old 2) i < 65536"
    by simp
  then show ?thesis
    using assms(2) wf_basic(1) [OF assms(1)] wf_getOffset [OF assms]
    by (simp add: kvPos_def assert_def u16_def HEADER_def)
qed

lemma wf_getPtr:
  assumes "well_formed old" and "i < get16 old 2"
  shows "getPtr old i = Some (get64 old (HEADER + 8 * i))"
proof -
  have "HEADER + 10 * get16 old 2 \<le> length old" "HEADER + 10 * get16 old 2 \<le> 8192"
    using wf_basic(3,4) [OF assms(1)] by simp_all
  with assms(2) wf_basic(1) [OF assms(1)] show ?thesis
    by (simp add: getPtr_def assert_def Uint64_def u16_def HEADER_def)
qed

lemma wf_getKey:
  assumes "well_formed old" and "i < get16 old 2"
  shows "\<exists>k. getKey old i = Some k"
proof -
  let ?n = "get16 old 2"
  let ?pos = "HEADER + 10 * ?n + node_off old ?n i"
  let ?klen = "get16 old ?pos"
  have step: "node_off old ?n (Suc i) = node_off old ?n i + 4 + ?klen + get16 old (?pos + 2)"
    using wf_off_step [OF assms] .
  have "node_off old ?n (Suc i) \<le> node_off old ?n ?n"
    using wf_off_mono [OF assms(1), of "Suc i" ?n] assms(2) by simp
  with step wf_basic(3,4) [OF assms(1)]
  have b: "?pos + 4 + ?klen \<le> length old" "?pos + 4 + ?klen \<le> 8192"
    by simp_all
  have kv: "kvPos old i = Some ?pos"
    using wf_kvPos [OF assms(1), of i] assms(2) by simp
  show ?thesis
    using assms(2) wf_basic(1) [OF assms(1)] kv b
    by (simp add: getKey_def assert_def Uint16_def slice_from_def slice_def u16_def)
qed

lemma wf_nbytes:
  assumes "well_formed old"
  shows "nbytes old = Some (node_size old)"
  using wf_basic(1) [OF assms] wf_kvPos [OF assms, of "get16 old 2"]
  by (simp add: nbytes_def node_size_def)

lemma lookup_scan_bound:
  assumes "\<And>i. i \<in> set is \<Longrightarrow> i < n \<and> (\<exists>k. getKey node i = Some k)" and "found < n"
  shows "\<exists>r<n. lookup_scan node key is found = Some r"
  using assms
proof (induction "is" arbitrary: found)
  case Nil
  then show ?case by simp
next
  case (Cons i "is")
  from Cons.prems(1) [of i] obtain k where k: "getKey node i = Some k" "i < n" by auto
  have "\<exists>r<n. lookup_scan node key is (if bytes_Compare k key \<le> 0 then i else found) = Some r"
    using Cons.prems k(2) by (intro Cons.IH) auto
  with k Cons.prems(2) show ?case by (auto simp add: Let_def)
qed

lemma wf_nodeLookUpLE:
  assumes "well_formed old"
  shows "\<exists>idx<get16 old 2. nodeLookUpLE old key = Some idx"
proof -
  have "\<exists>r<get16 old 2. lookup_scan old key [1..<get16 old 2] 0 = Some r"
    using wf_getKey [OF assms] wf_basic(2) [OF assms] by (intro lookup_scan_bound) auto
  then show ?thesis
    using wf_basic(1) [OF assms] by (simp add: nodeLookUpLE_def)
qed

lemma get16_cong: "c ! p = b ! p \<Longrightarrow> c ! (p + 1) = b ! (p + 1) \<Longrightarrow> get16 c p = get16 b p"
  by (simp add: get16_def)

text \<open>
  \<open>nodeAppendRange\<close> from a well-formed node into a buffer of two pages whose header
  announces \<open>N\<close> keys: it returns, and it leaves the header and the offsets above slot
  \<open>d + m\<close> as they were.
\<close>

lemma nodeAppendRange_in_bounds:
  assumes wf: "well_formed old"
    and len: "length new = 8192"
    and N: "get16 new 2 = N" "HEADER + 10 * N \<le> 8192"
    and s: "s + m \<le> get16 old 2"
    and d: "d + m \<le> N"
    and dv: "HEADER + 10 * N + node_off new N d \<le> 8192"
  shows "\<exists>new'. nodeAppendRange new old d s m = Some new' \<and> length new' = 8192 \<and>
           get16 new' 2 = N \<and>
           (\<forall>p. HEADER + 8 * N + 2 * (d + m) \<le> p \<and> p < HEADER + 10 * N \<longrightarrow> new' ! p = new ! p)"
proof (cases "m = 0")
  case True
  have "nkeys new = Some N" using len N by (simp add: nkeys_def)
  with True s d N(2) wf_basic(1) [OF wf] wf_basic(4) [OF wf] len N(1) show ?thesis
    by (simp add: nodeAppendRange_def assert_def u16_def HEADER_def)
next
  case False
  let ?n = "get16 old 2"
  let ?O = "node_off old ?n"
  let ?S = "HEADER + 8 * N + 2 * d"
  have n_small: "HEADER + 10 * ?n \<le> 8192" using wf_basic(4) [OF wf] by simp
  define I1 where "I1 c \<longleftrightarrow> length c = 8192 \<and> (\<forall>p. p < 4 \<or> HEADER + 8 * N \<le> p \<longrightarrow> c ! p = new ! p)" for c
  have I1_nkeys: "nkeys c = Some N" if "I1 c" for c
  proof -
    have "get16 c 2 = get16 new 2" using that by (intro get16_cong) (simp_all add: I1_def)
    with that N(1) show ?thesis by (simp add: nkeys_def I1_def)
  qed
  have "\<exists>new1. for_loop [0..<m]
         (\<lambda>i b. do { p \<leftarrow> getPtr old (u16 (s + i)); setPtr b (u16 (d + i)) p }) new = Some new1
         \<and> I1 new1"
  proof (rule for_loop_invariant)
    show "I1 new" using len by (simp add: I1_def)
  next
    fix i c assume "i \<in> set [0..<m]" and c: "I1 c"
    then have i: "i < m" by simp
    have si: "s + i < ?n" "s + i < 65536" using i s n_small by simp_all
    have di: "d + i < N" "d + i < 65536" using i d N(2) by simp_all
    have pos: "HEADER + 8 * (d + i) + 8 \<le> HEADER + 8 * N" using di by simp
    have "I1 (put64 c (HEADER + 8 * (d + i)) v)" for v
      using c pos by (auto simp add: I1_def nth_put64_other HEADER_def)
    then show "\<exists>c'. do { p \<leftarrow> getPtr old (u16 (s + i)); setPtr c (u16 (d + i)) p } = Some c' \<and> I1 c'"
      using wf_getPtr [OF wf si(1)] si(2) di I1_nkeys [OF c] c pos N(2)
      by (simp add: u16_id setPtr_def assert_def PutUint64_def I1_def HEADER_def)
  qed
  then obtain new1 where l1: "for_loop [0..<m]
         (\<lambda>i b. do { p \<leftarrow> getPtr old (u16 (s + i)); setPtr b (u16 (d + i)) p }) new = Some new1"
    and i1: "I1 new1" by blast
  have off_new1: "getOffset c d = Some (node_off new N d)"
    if "nkeys c = Some N" "length c = 8192"
      "\<And>p. HEADER + 8 * N \<le> p \<Longrightarrow> p < ?S \<Longrightarrow> c ! p = new ! p" for c
  proof (cases "d = 0")
    case True
    then show ?thesis by (simp add: getOffset_def node_off_def)
  next
    case False
    then have "get16 c (HEADER + 8 * N + 2 * (d - 1)) = get16 new (HEADER + 8 * N + 2 * (d - 1))"
      using that(3) by (intro get16_cong) simp_all
    with False that(1,2) d N(2) show ?thesis
      by (simp add: getOffset_def offsetPos_def assert_def Uint16_def node_off_def u16_id HEADER_def)
  qed
  have dstBegin: "getOffset new1 d = Some (node_off new N d)"
    using i1 by (intro off_new1 I1_nkeys) (simp_all add: I1_def)
  have srcBegin: "getOffset old s = Some (?O s)"
    using wf_getOffset [OF wf, of s] s by simp
  define I2 where "I2 c \<longleftrightarrow> length c = 8192 \<and> (\<forall>p. p < ?S \<or> ?S + 2 * m \<le> p \<longrightarrow> c ! p = new1 ! p)" for c
  have I2_nkeys: "nkeys c = Some N" if "I2 c" for c
  proof -
    have "get16 c 2 = get16 new1 2" using that by (intro get16_cong) (simp_all add: I2_def HEADER_def)
    moreover have "get16 new1 2 = get16 new 2" using i1 by (intro get16_cong) (simp_all add: I1_def)
    ultimately show ?thesis using that N(1) by (simp add: nkeys_def I2_def)
  qed
  have "\<exists>new2. for_loop [1..<m + 1]
         (\<lambda>i b. do {
            off \<leftarrow> getOffset old (u16 (s + i));
            setOffset b (u16 (d + i)) (u16 (node_off new N d + u16_sub off (?O s)))
          }) new1 = Some new2 \<and> I2 new2"
  proof (rule for_loop_invariant)
    show "I2 new1" using i1 by (simp add: I2_def I1_def)
  next
    fix i c assume "i \<in> set [1..<m + 1]" and c: "I2 c"
    then have i: "1 \<le> i" "i \<le> m" by auto
    have si: "s + i \<le> ?n" "s + i < 65536" using i s n_small by simp_all
    have di: "1 \<le> d + i" "d + i \<le> N" "d + i < 65536" using i d N(2) by simp_all
    have pos: "?S \<le> HEADER + 8 * N + 2 * (d + i - 1)"
      "HEADER + 8 * N + 2 * (d + i - 1) + 2 \<le> ?S + 2 * m" using i by simp_all
    have "I2 (put16 c (HEADER + 8 * N + 2 * (d + i - 1)) v)" for v
      using c pos by (auto simp add: I2_def nth_put16_other)
    moreover have "HEADER + 8 * N + 2 * (d + i - 1) + 2 \<le> 8192"
      using di N(2) by arith
    ultimately show "\<exists>c'. do {
            off \<leftarrow> getOffset old (u16 (s + i));
            setOffset c (u16 (d + i)) (u16 (node_off new N d + u16_sub off (?O s)))
          } = Some c' \<and> I2 c'"
      using wf_getOffset [OF wf si(1)] si(2) di I2_nkeys [OF c] c
      by (simp add: u16_id setOffset_def offsetPos_def assert_def PutUint16_def I2_def)
  qed
  then obtain new2 where l2: "for_loop [1..<m + 1]
         (\<lambda>i b. do {
            off \<leftarrow> getOffset old (u16 (s + i));
            setOffset b (u16 (d + i)) (u16 (node_off new N d + u16_sub off (?O s)))
          }) new1 = Some new2"
    and i2: "I2 new2" by blast
  have len2: "length new2 = 8192" using i2 by (simp add: I2_def)
  have same2: "new2 ! p = new ! p" if "p < 4 \<or> HEADER + 8 * N \<le> p" "p < ?S \<or> ?S + 2 * m \<le> p" for p
  proof -
    have "new2 ! p = new1 ! p" using that(2) i2 by (auto simp add: I2_def)
    moreover have "new1 ! p = new ! p" using that(1) i1 by (auto simp add: I1_def)
    ultimately show ?thesis by simp
  qed
  have off2: "getOffset new2 d = Some (node_off new N d)"
    using len2 by (intro off_new1 I2_nkeys [OF i2] same2) simp_all
  have kvn: "kvPos new2 d = Some (HEADER + 10 * N + node_off new N d)"
    using I2_nkeys [OF i2] off2 d dv by (simp add: kvPos_def assert_def u16_id HEADER_def)
  have kb: "kvPos old s = Some (HEADER + 10 * ?n + ?O s)"
    using wf_kvPos [OF wf, of s] s by simp
  have ke: "kvPos old (s + m) = Some (HEADER + 10 * ?n + ?O (s + m))"
    using wf_kvPos [OF wf, of "s + m"] s by simp
  have mono: "?O s \<le> ?O (s + m)" "?O (s + m) \<le> ?O ?n"
    using wf_off_mono [OF wf, of s "s + m"] wf_off_mono [OF wf, of "s + m" ?n] s by simp_all
  have sl: "slice old (HEADER + 10 * ?n + ?O s) (HEADER + 10 * ?n + ?O (s + m))
      = Some (take (?O (s + m) - ?O s) (drop (HEADER + 10 * ?n + ?O s) old))"
    using mono wf_basic(3) [OF wf] by (simp add: slice_def)
  let ?pos = "HEADER + 10 * N + node_off new N d"
  let ?kvs = "take (?O (s + m) - ?O s) (drop (HEADER + 10 * ?n + ?O s) old)"
  have cp: "copy_at new2 ?pos ?kvs = Some (blit new2 ?pos ?kvs)"
    using dv len2 by (simp add: copy_at_def)
  have bounds: "s + m < 65536" "d + m < 65536" "m < 65535"
    using s d n_small N(2) by simp_all
  have run: "nodeAppendRange new old d s m = Some (blit new2 ?pos ?kvs)"
    using False wf_basic(1) [OF wf] s d bounds len N(1) l1 dstBegin srcBegin l2 kb ke kvn sl cp
    by (simp add: nodeAppendRange_def nkeys_def assert_def u16_id)
  have below: "blit new2 ?pos ?kvs ! p = new2 ! p" if "p < HEADER + 10 * N" for p
    using that dv len2 by (intro nth_blit_other) simp_all
  have "length (blit new2 ?pos ?kvs) = 8192"
    using dv len2 by simp
  moreover have "get16 (blit new2 ?pos ?kvs) 2 = N"
  proof -
    have "blit new2 ?pos ?kvs ! 2 = new ! 2" "blit new2 ?pos ?kvs ! (2 + 1) = new ! (2 + 1)"
      using below [of 2] below [of 3] same2 [of 2] same2 [of 3] by (simp_all add: HEADER_def)
    then have "get16 (blit new2 ?pos ?kvs) 2 = get16 new 2"
      by (rule get16_cong)
    with N(1) show ?thesis by simp
  qed
  moreover have "blit new2 ?pos ?kvs ! p = new ! p"
    if "HEADER + 8 * N + 2 * (d + m) \<le> p \<and> p < HEADER + 10 * N" for p
    using that by (simp add: below same2)
  ultimately show ?thesis using run by simp
qed

lemma leafInsert_in_bounds:
  assumes wf: "well_formed old"
    and sz: "node_size old \<le> BTREE_PAGE_SIZE"
    and i: "i \<le> get16 old 2"
  shows "\<exists>new'. leafInsert (make_bytes 8192) old i key val = Some new' \<and> length new' = 8192"
proof -
  let ?n = "get16 old 2"
  let ?N = "?n + 1"
  let ?new1 = "put16 (put16 (make_bytes 8192) 0 BNODE_LEAF) 2 ?N"
  have n: "HEADER + 10 * ?n \<le> 4096"
    using sz by (simp add: node_size_def BTREE_PAGE_SIZE_def)
  then have N: "HEADER + 10 * ?N \<le> 8192" "?N < 65536" by simp_all
  have hdr: "setHeader (make_bytes 8192) BNODE_LEAF (u16 ?N) = Some ?new1"
    using N(2) by (simp add: setHeader_def u16_id)
  have len1: "length ?new1 = 8192" by simp
  have N1: "get16 ?new1 2 = ?N"
    using N(2) by (simp add: get16_put16_same)
  have zero1: "get16 ?new1 p = 0" if "4 \<le> p" "p + 1 < 8192" for p
    using that by (simp add: get16_put16_other get16_make)
  have "HEADER + 10 * ?N + node_off ?new1 ?N 0 \<le> 8192"
    using N(1) by (simp add: node_off_def)
  from nodeAppendRange_in_bounds [OF wf len1 N1 N(1) _ _ this, of 0 i] i
  obtain new2 where r1: "nodeAppendRange ?new1 old 0 0 i = Some new2" "length new2 = 8192"
    "get16 new2 2 = ?N"
    and fr: "\<And>p. HEADER + 8 * ?N + 2 * i \<le> p \<Longrightarrow> p < HEADER + 10 * ?N \<Longrightarrow> new2 ! p = ?new1 ! p"
    by auto
  have off2: "node_off new2 ?N (i + 1) = 0"
  proof -
    let ?p = "HEADER + 8 * ?N + 2 * i"
    have "get16 new2 ?p = get16 ?new1 ?p"
      using i by (intro get16_cong fr) simp_all
    also have "\<dots> = 0"
      using N(1) i by (intro zero1) (simp_all add: HEADER_def)
    finally show ?thesis by (simp add: node_off_def)
  qed
  have "HEADER + 10 * ?N + node_off new2 ?N (i + 1) \<le> 8192"
    using N(1) off2 by simp
  from nodeAppendRange_in_bounds [OF wf r1(2) r1(3) N(1) _ _ this, of i "?n - i"] i
  obtain new3 where r2: "nodeAppendRange new2 old (i + 1) i (?n - i) = Some new3"
    "length new3 = 8192"
    by auto
  have "i + 1 < 65536" "?n < 65536" using i N(2) by simp_all
  then show ?thesis
    using wf_basic(1) [OF wf] hdr r1(1) r2 i
    by (simp add: leafInsert_def u16_id u16_sub_le)
qed

lemma all_less_two: "(\<forall>i<2. P i) \<longleftrightarrow> P 0 \<and> P (Suc 0)"
  by (auto simp add: less_2_cases_iff)

lemma first_leaf_well_formed: "well_formed (first_leaf [107] [118])"
proof -
  have n: "get16 (first_leaf [107] [118]) 2 = 2"
    by (simp add: first_leaf_def frame)
  have len: "length (first_leaf [107] [118]) = 4096"
    by (simp add: first_leaf_header)
  have o1: "get16 (first_leaf [107] [118]) 20 = 4" and o2: "get16 (first_leaf [107] [118]) 22 = 10"
    and k0: "get16 (first_leaf [107] [118]) 24 = 0" and v0: "get16 (first_leaf [107] [118]) 26 = 0"
    and k1: "get16 (first_leaf [107] [118]) 28 = 1" and v1: "get16 (first_leaf [107] [118]) 30 = 1"
    by (simp_all add: first_leaf_def frame)
  show ?thesis
    unfolding well_formed_def node_size_def node_off_def n all_less_two
    by (simp add: len o1 o2 k0 v0 k1 v1 HEADER_def BTREE_PAGE_SIZE_def)
qed

section \<open>Trees in search order\<close>




lemma one_leaf_built:
  "length key \<le> 1000 \<Longrightarrow> length val \<le> 3000 \<Longrightarrow>
   do { b \<leftarrow> setHeader (make_bytes 4096) BNODE_LEAF 1; nodeAppendKV b 0 0 key val }
     = Some (one_leaf key val)"
  by (simp add: nodeAppendKV_def one_leaf_def exec)










section \<open>The claims\<close>

text \<open>
  C1. A key that was inserted is retrievable with the value of its most recent \<open>Insert\<close>.
  The code fails this: after \<open>Insert("k", "v")\<close> and \<open>Insert("k", "w")\<close> on the empty
  tree the traversal for \<open>"k"\<close> ends in \<open>panic("bad node!")\<close>, since the update branch of
  \<open>treeInsert\<close> writes nothing and the root becomes a page of zeros.
\<close>

theorem Insert_twice_not_retrievable:
  "do { t \<leftarrow> Insert 1 tree0 [107] [118]; t' \<leftarrow> Insert 1 t [107] [119]; Lookup 1 t' [107] } = None"
  by (simp add: Insert_tree0 Insert_same_key Lookup_zero_tree cdefs)

text \<open>
  C4. Every reachable node has type 1 or 2 (among other invariants). The code fails this:
  after \<open>Insert("k", "v")\<close> and \<open>Insert("k", "w")\<close> on the empty tree the root node has
  type 0.
\<close>

theorem Insert_twice_bad_node:
  "do { t \<leftarrow> Insert 1 tree0 [107] [118]; t' \<leftarrow> Insert 1 t [107] [119];
        node \<leftarrow> tree_get t' (root t'); btype node } = Some 0"
  by (simp add: Insert_tree0 Insert_same_key cdefs zero_tree_def tree_get_def btype_make_bytes)

text \<open>
  C2. \<open>nodeSplit3\<close> of an oversized node gives 2 or 3 nodes that fit a page each and hold
  the entries of the node in order. The code fails this: for the oversized leaf
  \<open>big_leaf\<close> of three entries it gives two pages of zero bytes, which hold no entry.
\<close>

theorem nodeSplit3_drops_entries:
  "nbytes big_leaf = Some 6048 \<and> nkeys big_leaf = Some 3 \<and>
   nodeSplit3 big_leaf = Some (2, [make_bytes 4096, make_bytes 4096, []]) \<and>
   nkeys (make_bytes 4096) = Some 0"
  using nodeSplit3_oversize [of big_leaf 6048]
  by (simp add: big_leaf_size BTREE_PAGE_SIZE_def nkeys_make_bytes)

text \<open>
  C3. \<open>leafInsert(new, old, i, key, val)\<close> gives a leaf with the entries of \<open>old\<close> below
  \<open>i\<close>, the pair at \<open>i\<close>, and the entries of \<open>old\<close> from \<open>i\<close> on after it. The code
  fails this: for the leaf with the sentinel and \<open>("k", "v")\<close>, index 1 and the pair
  \<open>("a", "1")\<close>, as \<open>treeInsert\<close> calls it, the result has three entries, the key at index
  0 is \<open>"k"\<close> and not the sentinel, and reading the key at index 1 panics.
\<close>

theorem leafInsert_loses_pair:
  "do { new \<leftarrow> leafInsert (make_bytes 8192) (first_leaf [107] [118]) 1 [97] [49];
        Some (nkeys new, getKey new 0, getKey new 1) } = Some (Some 3, Some [107], None)"
  by (simp add: leafInsert_def nodeAppendRange_def first_leaf_def exec)
    (simp add: get16_def nth_blit_inside nth_blit_other)

text \<open>
  C9. \<open>nodeReplace2Kid(new, old, i, ptr, key)\<close> gives the entries of \<open>old\<close> below \<open>i\<close>, then
  \<open>(ptr, key)\<close>, then the entries of \<open>old\<close> from \<open>i + 2\<close> on. The code fails this: for the
  internal node \<open>internal3\<close>, index 0, pointer 20 and key \<open>"a"\<close>, the entry at index 1 of the
  result is \<open>(0, "")\<close> and not the entry \<open>(13, "c")\<close> at index 2 of the old node.
\<close>

theorem nodeReplace2Kid_loses_entry:
  "entry internal3 2 = (Some 13, Some [99], Some []) \<and>
   do { new \<leftarrow> nodeReplace2Kid (make_bytes 4096) internal3 0 20 [97];
        Some (nkeys new, entry new 0, entry new 1) }
     = Some (Some 2, (Some 20, Some [97], Some []), (Some 0, Some [], Some []))"
  by (simp add: internal3_entry2) (simp add: nodeReplace2Kid_def nodeAppendRange_def entry_def internal3_def exec)




text \<open>
  C6. When the root is the only leaf and holds one user key besides the sentinel, \<open>Delete\<close>
  of that key returns \<open>true\<close> and sets the root back to 0. The code fails this: after
  \<open>Insert("k", "v")\<close> on the empty tree, \<open>Delete("k")\<close> returns \<open>true\<close> and the root is page
  2, a leaf with one entry, the sentinel. The branch of \<open>Delete\<close> that sets the root to 0
  asks for a leaf without entries, and the sentinel stays in the leaf.
\<close>

theorem Delete_last_user_key_keeps_root:
  "do { t \<leftarrow> Insert 1 tree0 [107] [118]; (found, t') \<leftarrow> Delete 1 t [107];
        node \<leftarrow> tree_get t' (root t'); k \<leftarrow> getKey node 0;
        Some (found, root t', btype node, nkeys node, k) } = Some (True, 2, Some 2, Some 1, [])"
  by (simp add: Insert_tree0 Delete_first_tree_key sentinel_tree_def tree_get_def
      sentinel_leaf_header cdefs)

text \<open>
  C7, as stated: for every node with at least one key whose key at index 0 is at most
  \<open>key\<close>, \<open>nodeLookUpLE\<close> returns the largest index whose key is at most \<open>key\<close>, and an
  index whose key equals \<open>key\<close> when there is one. This fails on the node \<open>unsorted3\<close> with
  the keys \<open>""\<close>, \<open>"b"\<close>, \<open>"a"\<close>: for \<open>"a"\<close> the scan stops at \<open>"b"\<close> and returns 0, while
  index 2 holds \<open>"a"\<close>.
\<close>

theorem nodeLookUpLE_unsorted_counterexample:
  "nkeys unsorted3 = Some 3 \<and> getKey unsorted3 0 = Some [] \<and> bytes_Compare [] [97] \<le> 0 \<and>
   getKey unsorted3 2 = Some [97] \<and> bytes_Compare [97] [97] \<le> 0 \<and>
   nodeLookUpLE unsorted3 [97] = Some 0"
  by (simp add: unsorted3_keys nodeLookUpLE_def upt_conv_Cons)

text \<open>
  C7, amended: for every node with at least one key whose keys \<open>ks\<close> are in ascending
  order (strictly ascending from index 1 on, and the key at index 0 at most every other
  key) and whose key at index 0 is at most \<open>key\<close>, \<open>nodeLookUpLE\<close> returns the largest index
  \<open>r\<close> below \<open>nkeys\<close> whose key is at most \<open>key\<close>; when some key equals \<open>key\<close> the key at
  \<open>r\<close> is \<open>key\<close>; and \<open>r\<close> is 0 when no index from 1 on has a key at most \<open>key\<close>.
\<close>

theorem nodeLookUpLE_largest:
  assumes "nkeys node = Some n" and "1 \<le> n"
    and keys: "\<forall>j<n. getKey node j = Some (ks ! j)"
    and sorted: "\<forall>a b. 1 \<le> a \<and> a < b \<and> b < n \<longrightarrow> bytes_Compare (ks ! a) (ks ! b) < 0"
    and first: "\<forall>b. 1 \<le> b \<and> b < n \<longrightarrow> bytes_Compare (ks ! 0) (ks ! b) \<le> 0"
    and zero: "bytes_Compare (ks ! 0) key \<le> 0"
  shows "\<exists>r. nodeLookUpLE node key = Some r \<and> r < n \<and> bytes_Compare (ks ! r) key \<le> 0 \<and>
           (\<forall>j<n. bytes_Compare (ks ! j) key \<le> 0 \<longrightarrow> j \<le> r) \<and>
           ((\<exists>j<n. ks ! j = key) \<longrightarrow> ks ! r = key) \<and>
           ((\<forall>j. 1 \<le> j \<and> j < n \<longrightarrow> 0 < bytes_Compare (ks ! j) key) \<longrightarrow> r = 0)"
proof -
  have "\<exists>r. lookup_scan node key [1..<n] (1 - 1) = Some r \<and> r < n \<and> ks ! r \<le> key \<and>
           (\<forall>j. 1 \<le> j \<and> j < n \<and> ks ! j \<le> key \<longrightarrow> j \<le> r)"
    using assms by (intro lookup_scan_largest) (auto simp add: bytes_Compare_le0 bytes_Compare_less0)
  then obtain r where r: "lookup_scan node key [1..<n] 0 = Some r" "r < n" "ks ! r \<le> key"
    and mx: "\<And>j. 1 \<le> j \<Longrightarrow> j < n \<Longrightarrow> ks ! j \<le> key \<Longrightarrow> j \<le> r"
    by auto
  have mx': "\<And>j. j < n \<Longrightarrow> ks ! j \<le> key \<Longrightarrow> j \<le> r"
    using mx by (metis One_nat_def Suc_leI le0 not_gr_zero)
  have tie: "ks ! r = key" if "j < n" "ks ! j = key" for j
  proof (cases "j = r")
    case True
    with that show ?thesis by simp
  next
    case False
    with mx' [of j] that have jr: "j < r" by simp
    have "ks ! j \<le> ks ! r"
    proof (cases "j = 0")
      case True
      with first jr r(2) show ?thesis by (simp add: bytes_Compare_le0)
    next
      case False
      with sorted jr r(2) show ?thesis by (simp add: bytes_Compare_less0 less_imp_le)
    qed
    with r(3) that show ?thesis by simp
  qed
  have none: "r = 0" if "\<forall>j. 1 \<le> j \<and> j < n \<longrightarrow> 0 < bytes_Compare (ks ! j) key"
  proof (rule ccontr)
    assume "r \<noteq> 0"
    with that r(2) have "key < ks ! r" by (simp add: bytes_Compare_gt0)
    with r(3) show False by simp
  qed
  show ?thesis
    using assms(1) r mx' tie none
    by (auto simp add: nodeLookUpLE_def bytes_Compare_le0)
qed

theorem nodeLookUpLE_largest_witness:
  "nkeys internal3 = Some 3 \<and> getKey internal3 0 = Some [] \<and> getKey internal3 1 = Some [98] \<and>
   getKey internal3 2 = Some [99] \<and> bytes_Compare [98] [99] < 0 \<and> bytes_Compare [] [98] \<le> 0 \<and>
   nodeLookUpLE internal3 [98] = Some 1"
proof -
  have k2: "getKey internal3 (Suc (Suc 0)) = Some [99]"
    using internal3_keys(4) by (simp add: numeral_2_eq_2)
  have "\<forall>j<3. getKey internal3 j = Some ([[], [98], [99]] ! j)"
    by (auto simp add: internal3_keys k2 less_Suc_eq numeral_3_eq_3)
  moreover have "\<forall>a b. 1 \<le> a \<and> a < b \<and> b < 3 \<longrightarrow>
      bytes_Compare ([[], [98], [99 :: byte]] ! a) ([[], [98], [99]] ! b) < 0"
    by (auto simp add: less_Suc_eq numeral_3_eq_3)
  moreover have "\<forall>b. 1 \<le> b \<and> b < 3 \<longrightarrow>
      bytes_Compare ([[], [98], [99 :: byte]] ! 0) ([[], [98], [99]] ! b) \<le> 0"
    by (auto simp add: less_Suc_eq numeral_3_eq_3)
  ultimately obtain r where r: "nodeLookUpLE internal3 [98] = Some r" "r < 3"
    "(\<exists>j<3. [[], [98], [99 :: byte]] ! j = [98]) \<longrightarrow> [[], [98], [99]] ! r = [98 :: byte]"
    using nodeLookUpLE_largest [of internal3 3 "[[], [98], [99]]" "[98]"]
    by (auto simp add: internal3_keys)
  from r(3) have "[[], [98], [99 :: byte]] ! r = [98]"
    by (auto intro: exI [of _ 1])
  with r(2) have "r = 1"
    by (auto simp add: less_Suc_eq numeral_3_eq_3)
  with r(1) show ?thesis
    by (simp add: internal3_keys)
qed

text \<open>
  C8. \<open>Insert\<close> accepts the empty key, after which the traversal retrieves its value, and
  on a tree where the empty key was never inserted lookups and \<open>Delete\<close> treat it as
  absent. The code fails both halves on the tree that \<open>Insert("k", "v")\<close> builds from the
  empty tree. \<open>Insert("", "w")\<close> finds the sentinel entry, takes the update branch of
  \<open>treeInsert\<close>, which writes nothing, and leaves a root page of zeros; the traversal for
  the empty key then ends in \<open>panic("bad node!")\<close>. Without that \<open>Insert\<close>, the traversal
  for the empty key finds the sentinel entry with the empty value, and \<open>Delete\<close> of the
  empty key returns \<open>true\<close> and removes the sentinel: the new root leaf has one entry, and
  its key at index 0 is \<open>"k"\<close>.
\<close>

theorem empty_key_not_distinguished:
  "do { t \<leftarrow> Insert 1 tree0 [107] [118]; Insert 1 t [] [119] } = Some zero_tree \<and>
   do { t \<leftarrow> Insert 1 tree0 [107] [118]; t' \<leftarrow> Insert 1 t [] [119]; Lookup 1 t' [] } = None \<and>
   do { t \<leftarrow> Insert 1 tree0 [107] [118]; Lookup 1 t [] } = Some (Some []) \<and>
   do { t \<leftarrow> Insert 1 tree0 [107] [118]; (found, t') \<leftarrow> Delete 1 t [];
        node \<leftarrow> tree_get t' (root t'); k \<leftarrow> getKey node 0;
        Some (found, root t', nkeys node, k) } = Some (True, 2, Some 1, [107])"
proof -
  obtain node where n: "Delete (Suc 0) (first_tree [107] [118]) [] =
           Some (True, \<lparr>root = 2, pages = [2 \<mapsto> node], next_ptr = 3, new_calls = 2, del_calls = 1\<rparr>)"
      "nkeys node = Some (Suc 0)" "getKey node 0 = Some [107]"
    using Delete_first_tree_sentinel [of "[107]" "[118]" 0] by auto
  show ?thesis
    by (simp add: Insert_tree0 Insert_empty_key Lookup_zero_tree Lookup_first_tree_empty n
        tree_get_def cdefs)
qed

text \<open>
  C10. For every well-formed leaf \<open>old\<close> with \<open>nbytes\<close> at most 4096 and every key of at
  most 1000 bytes and value of at most 3000 bytes, the leaf path of \<open>treeInsert\<close> returns:
  no slice or index of \<open>nodeLookUpLE\<close>, \<open>leafInsert\<close> and \<open>nodeAppendRange\<close> leaves its buffer,
  no assertion of an accessor fires, and the result is the scratch buffer of two pages. The
  page manager is not touched.
\<close>

theorem treeInsert_leaf_in_bounds:
  assumes "well_formed old"
    and "btype old = Some BNODE_LEAF"
    and "nbytes old = Some sz" and "sz \<le> BTREE_PAGE_SIZE"
    and "length key \<le> BTREE_MAX_KEY_SIZE" and "length val \<le> BTREE_MAX_VAL_SIZE"
  shows "\<exists>new. treeInsert (Suc fuel) tree old key val = Some (new, tree) \<and>
           length new = 2 * BTREE_PAGE_SIZE"
proof -
  have size: "node_size old \<le> BTREE_PAGE_SIZE"
    using wf_nbytes [OF assms(1)] assms(3,4) by simp
  obtain idx where idx: "idx < get16 old 2" "nodeLookUpLE old key = Some idx"
    using wf_nodeLookUpLE [OF assms(1)] by blast
  obtain k where k: "getKey old idx = Some k"
    using wf_getKey [OF assms(1) idx(1)] by blast
  have "idx + 1 < 65536"
    using idx(1) get16_less [of old 2] by simp
  moreover obtain new' where "leafInsert (make_bytes 8192) old (idx + 1) key val = Some new'"
    "length new' = 8192"
    using leafInsert_in_bounds [OF assms(1) size, of "idx + 1"] idx(1) by auto
  ultimately show ?thesis
    using idx(2) k assms(2)
    by (simp add: treeInsert.simps Let_def BTREE_PAGE_SIZE_def u16_id)
qed

theorem treeInsert_leaf_in_bounds_witness:
  "well_formed (first_leaf [107] [118]) \<and>
   btype (first_leaf [107] [118]) = Some BNODE_LEAF \<and>
   nbytes (first_leaf [107] [118]) = Some 34 \<and> 34 \<le> BTREE_PAGE_SIZE \<and>
   length [97 :: byte] \<le> BTREE_MAX_KEY_SIZE \<and> length [49 :: byte] \<le> BTREE_MAX_VAL_SIZE \<and>
   map_option (length \<circ> fst) (treeInsert 1 tree0 (first_leaf [107] [118]) [97] [49]) = Some 8192 \<and>
   map_option snd (treeInsert 1 tree0 (first_leaf [107] [118]) [97] [49]) = Some tree0"
proof -
  have h: "btype (first_leaf [107] [118]) = Some BNODE_LEAF"
    "nbytes (first_leaf [107] [118]) = Some 34" "34 \<le> BTREE_PAGE_SIZE"
    "length [97 :: byte] \<le> BTREE_MAX_KEY_SIZE" "length [49 :: byte] \<le> BTREE_MAX_VAL_SIZE"
    by (simp_all add: first_leaf_header cdefs)
  from treeInsert_leaf_in_bounds [OF first_leaf_well_formed h, of 0 tree0]
  obtain new where "treeInsert (Suc 0) tree0 (first_leaf [107] [118]) [97] [49] = Some (new, tree0)"
    "length new = 2 * BTREE_PAGE_SIZE"
    by blast
  then show ?thesis
    using first_leaf_well_formed h by (simp add: BTREE_PAGE_SIZE_def)
qed

end
